theory Spec2Isabelle
  imports Main "HOL-Library.Sublist" "HOL-Library.Char_ord" "HOL-Library.List_Lexorder"
    "HOL-Library.AList"
begin

section \<open>Strings\<close>

text \<open>
  A Go string is a sequence of bytes, modelled as a \<^typ>\<open>string\<close>, one \<^typ>\<open>char\<close> per
  byte.  Where Go reads a string as runes it decodes UTF-8, and so does the model.
\<close>

text \<open>\<open>strings.Index(s, substr)\<close>: the position of the first occurrence, \<open>None\<close> for -1.\<close>

fun Index :: "string \<Rightarrow> string \<Rightarrow> nat option" where
  "Index [] sub = (if sub = [] then Some 0 else None)"
| "Index (c # s) sub =
     (if prefix sub (c # s) then Some 0 else map_option Suc (Index s sub))"

text \<open>
  \<open>utf8.DecodeRuneInString\<close>, which is also how \<open>range\<close> reads a string: the first rune
  of \<open>s\<close> and the number of bytes of its encoding.  A byte that starts no valid encoding
  is the rune \<open>RuneError\<close> of width 1.  The first byte gives the size of the encoding and
  the range of the second byte; the other bytes are continuation bytes.
\<close>

type_synonym rune = nat

definition RuneError :: rune where
  "RuneError = 0xFFFD"

definition DecodeRune :: "string \<Rightarrow> rune \<times> nat" where
  "DecodeRune s =
     (case map of_char s of
        [] \<Rightarrow> (RuneError, 0)
      | s0 # t \<Rightarrow>
          if s0 < 0x80 then (s0, 1)
          else if s0 < 0xC2 \<or> 0xF4 < s0 then (RuneError, 1)
          else
            let sz = (if s0 < 0xE0 then 2 else if s0 < 0xF0 then 3 else 4);
                lo = (if s0 = 0xE0 then 0xA0 else if s0 = 0xF0 then 0x90 else 0x80);
                hi = (if s0 = 0xED then 0x9F else if s0 = 0xF4 then 0x8F else 0xBF)
            in if length s < sz then (RuneError, 1)
               else
                 let s1 = t ! 0
                 in if s1 < lo \<or> hi < s1 then (RuneError, 1)
                    else if sz \<le> 2 then ((s0 mod 0x20) * 0x40 + s1 mod 0x40, 2)
                    else
                      let s2 = t ! 1
                      in if s2 < 0x80 \<or> 0xBF < s2 then (RuneError, 1)
                         else if sz \<le> 3
                           then ((s0 mod 0x10) * 0x1000 + (s1 mod 0x40) * 0x40 + s2 mod 0x40, 3)
                         else
                           let s3 = t ! 2
                           in if s3 < 0x80 \<or> 0xBF < s3 then (RuneError, 1)
                              else ((s0 mod 8) * 0x40000 + (s1 mod 0x40) * 0x1000 +
                                    (s2 mod 0x40) * 0x40 + s3 mod 0x40, 4))"

text \<open>
  White space is what \<open>unicode.IsSpace\<close> accepts: the runes U+0009 to U+000D, U+0020,
  U+0085, U+00A0, U+1680, U+2000 to U+200A, U+2028, U+2029, U+202F, U+205F and U+3000.
  \<open>whiteSpace\<close> lists their UTF-8 encodings.  The rune that Go decodes at the start of a
  string (\<open>utf8.DecodeRuneInString\<close>) or at its end (\<open>utf8.DecodeLastRuneInString\<close>) is
  one of them exactly when the string starts or ends with its encoding: bytes that are
  no valid encoding decode to \<open>RuneError\<close>, which is not white space.
\<close>

definition whiteSpace :: "string list" where
  "whiteSpace =
     [[CHR 0x09], [CHR 0x0A], [CHR 0x0B], [CHR 0x0C], [CHR 0x0D], [CHR 0x20],
      [CHR 0xC2, CHR 0x85], [CHR 0xC2, CHR 0xA0], [CHR 0xE1, CHR 0x9A, CHR 0x80],
      [CHR 0xE2, CHR 0x80, CHR 0x80], [CHR 0xE2, CHR 0x80, CHR 0x81],
      [CHR 0xE2, CHR 0x80, CHR 0x82], [CHR 0xE2, CHR 0x80, CHR 0x83],
      [CHR 0xE2, CHR 0x80, CHR 0x84], [CHR 0xE2, CHR 0x80, CHR 0x85],
      [CHR 0xE2, CHR 0x80, CHR 0x86], [CHR 0xE2, CHR 0x80, CHR 0x87],
      [CHR 0xE2, CHR 0x80, CHR 0x88], [CHR 0xE2, CHR 0x80, CHR 0x89],
      [CHR 0xE2, CHR 0x80, CHR 0x8A], [CHR 0xE2, CHR 0x80, CHR 0xA8],
      [CHR 0xE2, CHR 0x80, CHR 0xA9], [CHR 0xE2, CHR 0x80, CHR 0xAF],
      [CHR 0xE2, CHR 0x81, CHR 0x9F], [CHR 0xE3, CHR 0x80, CHR 0x80]]"

lemma whiteSpace_nonempty: "e \<in> set whiteSpace \<Longrightarrow> e \<noteq> []"
  by (auto simp: whiteSpace_def)

text \<open>
  \<open>strings.TrimSpace\<close> and \<open>bytes.TrimSpace\<close> remove the white space at the start and at
  the end of a string: \<open>TrimLeftSpace\<close> removes the white-space runes at the start, one
  after the other, and \<open>TrimRightSpace\<close> those at the end.
\<close>

function TrimLeftSpace :: "string \<Rightarrow> string" where
  "TrimLeftSpace s =
     (case find (\<lambda>e. prefix e s) whiteSpace of
        None \<Rightarrow> s
      | Some e \<Rightarrow> TrimLeftSpace (drop (length e) s))"
  by pat_completeness auto
termination
proof (relation "measure length", goal_cases)
  case 1
  show ?case by simp
next
  case (2 s e)
  then have "e \<in> set whiteSpace" and "prefix e s" by (auto simp: find_Some_iff)
  then have "e \<noteq> []" and "length e \<le> length s"
    by (auto simp: whiteSpace_nonempty prefix_length_le)
  then show ?case by (cases s) auto
qed

declare TrimLeftSpace.simps [simp del]

function TrimRightSpace :: "string \<Rightarrow> string" where
  "TrimRightSpace s =
     (case find (\<lambda>e. suffix e s) whiteSpace of
        None \<Rightarrow> s
      | Some e \<Rightarrow> TrimRightSpace (take (length s - length e) s))"
  by pat_completeness auto
termination
proof (relation "measure length", goal_cases)
  case 1
  show ?case by simp
next
  case (2 s e)
  then have "e \<in> set whiteSpace" and "suffix e s" by (auto simp: find_Some_iff)
  then have "e \<noteq> []" and "length e \<le> length s"
    by (auto simp: whiteSpace_nonempty suffix_length_le)
  then show ?case by (cases s) auto
qed

declare TrimRightSpace.simps [simp del]

definition TrimSpace :: "string \<Rightarrow> string" where
  "TrimSpace s = TrimRightSpace (TrimLeftSpace s)"

section \<open>Environment expansion (\<open>expand\<close>)\<close>

text \<open>\<open>os.Getenv\<close>: the environment is a function that yields \<open>''''\<close> for an unset name.\<close>

type_synonym env = "string \<Rightarrow> string"

lemma Index_bound: "Index s sub = Some x \<Longrightarrow> x + length sub \<le> length s"
proof (induction s arbitrary: x)
  case Nil
  then show ?case by (simp split: if_splits)
next
  case (Cons c s)
  show ?case
  proof (cases "prefix sub (c # s)")
    case True
    then have "length sub \<le> length (c # s)" by (rule prefix_length_le)
    with True Cons.prems show ?thesis by simp
  next
    case False
    with Cons.prems obtain y where "Index s sub = Some y" "x = Suc y" by auto
    with Cons.IH show ?thesis by fastforce
  qed
qed

function expand_loop :: "env \<Rightarrow> string list \<Rightarrow> string \<Rightarrow> string" where
  "expand_loop getenv parts s =
     (case Index s ''${'' of
        None \<Rightarrow> concat (parts @ [s])
      | Some x \<Rightarrow>
          if x + 2 = length s then concat (parts @ [s])
          else if s ! (x + 2) = CHR ''$''
          then expand_loop getenv (parts @ [take (x + 2) s]) (drop (x + 3) s)
          else
            let parts = parts @ [take x s];
                s = drop (x + 2) s
            in (case Index s ''}'' of
                  None \<Rightarrow> concat (parts @ [''${'', s])
                | Some x \<Rightarrow>
                    let name = take x s;
                        s = drop (x + 1) s;
                        (name, val) = (case Index name '':-'' of
                                         Some x \<Rightarrow> (take x name, drop (x + 2) name)
                                       | None \<Rightarrow> (name, ''''));
                        val = (if getenv name \<noteq> '''' then getenv name else val)
                    in expand_loop getenv (parts @ [val]) s))"
  by pat_completeness auto
termination
proof (relation "measure (\<lambda>(getenv, parts, s). length s)", goal_cases)
  case 1
  show ?case by simp
next
  case (2 getenv parts s x)
  then show ?case using Index_bound [of s "''${''" x] by simp
next
  case (3 getenv parts s x parts' s' y)
  then show ?case using Index_bound [of s "''${''" x] by simp
qed

declare expand_loop.simps [simp del]

definition expand :: "env \<Rightarrow> string \<Rightarrow> string" where
  "expand getenv s = expand_loop getenv [] s"

section \<open>The tag parser (package \<open>options\<close>)\<close>

text \<open>An \<open>optTag\<close> holds what a getopt tag declares.  \<open>short\<close> is a rune; the rune 0
  means that no short name is set, as in the Go struct.  The field \<open>help\<close> is named
  \<open>helpText\<close> here.\<close>

record optTag =
  long :: string
  short :: rune
  param :: string
  helpText :: string

definition empty_optTag :: optTag where
  "empty_optTag = \<lparr>long = [], short = 0, param = [], helpText = []\<rparr>"

datatype tagError =
    MissingOptionName string
  | MultipleParameterNames string
  | TooManyShortNames string
  | InvalidShortName string
  | TooManyLongNames string
  | MustNotStartWithDashes string
  | TooManyNames string

text \<open>\<open>nextOption\<close> returns the next option, its parameter and the rest of the string.\<close>

definition nextOption :: "string \<Rightarrow> string \<times> string \<times> string" where
  "nextOption s =
     (if s = [] \<or> hd s \<noteq> CHR ''-'' then ([], [], s)
      else
        let (s, rest) = (case Index s '' '' of
                           Some x \<Rightarrow> (take x s, TrimSpace (drop x s))
                         | None \<Rightarrow> (s, []))
        in (case Index s ''='' of
              Some x \<Rightarrow> (take x s, drop (x + 1) s, rest)
            | None \<Rightarrow> (s, [], rest)))"

text \<open>\<open>argPrefix\<close> returns the leading dashes of its argument.\<close>

definition argPrefix :: "string \<Rightarrow> string" where
  "argPrefix a = takeWhile (\<lambda>c. c = CHR ''-'') a"

lemma length_TrimLeftSpace: "length (TrimLeftSpace s) \<le> length s"
proof (induction s rule: TrimLeftSpace.induct)
  case (1 s)
  show ?case
  proof (cases "find (\<lambda>e. prefix e s) whiteSpace")
    case None
    then show ?thesis by (subst TrimLeftSpace.simps) simp
  next
    case (Some e)
    have "length (TrimLeftSpace (drop (length e) s)) \<le> length (drop (length e) s)"
      using Some by (rule "1.IH")
    then show ?thesis using Some by (subst TrimLeftSpace.simps) simp
  qed
qed

lemma length_TrimRightSpace: "length (TrimRightSpace s) \<le> length s"
proof (induction s rule: TrimRightSpace.induct)
  case (1 s)
  show ?case
  proof (cases "find (\<lambda>e. suffix e s) whiteSpace")
    case None
    then show ?thesis by (subst TrimRightSpace.simps) simp
  next
    case (Some e)
    have "length (TrimRightSpace (take (length s - length e) s)) \<le>
        length (take (length s - length e) s)"
      using Some by (rule "1.IH")
    then show ?thesis using Some by (subst TrimRightSpace.simps) simp
  qed
qed

lemma length_TrimSpace: "length (TrimSpace s) \<le> length s"
  unfolding TrimSpace_def
  using length_TrimRightSpace [of "TrimLeftSpace s"] length_TrimLeftSpace [of s] by simp

lemma nextOption_shorter:
  assumes "nextOption s = (arg, par, rest)" and "arg \<noteq> []"
  shows "length rest < length s"
proof -
  from assms have s: "s \<noteq> []" "hd s = CHR ''-''"
    by (auto simp: nextOption_def split: if_splits)
  show ?thesis
  proof (cases "Index s '' ''")
    case None
    with assms s have "rest = []"
      by (auto simp: nextOption_def split: option.splits)
    with s show ?thesis by simp
  next
    case (Some x)
    with assms s have r: "rest = TrimSpace (drop x s)"
      by (auto simp: nextOption_def split: option.splits)
    have "x \<noteq> 0"
      using Some s by (cases s) (auto split: if_splits)
    moreover have "x < length s" using Index_bound [OF Some] by simp
    ultimately have "length (drop x s) < length s" by simp
    with r show ?thesis using length_TrimSpace [of "drop x s"] by simp
  qed
qed

text \<open>The loop of \<open>parseTag\<close>: \<open>tag\<close> is the trimmed tag (kept for the error values),
  \<open>ot\<close> the descriptor built so far and \<open>next\<close> the text not yet consumed.  The loop
  over the runes of \<open>arg[1:]\<close> sets \<open>short\<close> to the first rune and returns the error for
  an invalid short name when it finds a second one.\<close>

function parseTag_loop :: "string \<Rightarrow> optTag \<Rightarrow> string \<Rightarrow> tagError + optTag option" where
  "parseTag_loop tag ot next =
     (case nextOption next of (arg, par, next) \<Rightarrow>
        if arg = [] \<or> arg = ''-'' \<or> arg = ''--'' then
          if par \<noteq> [] then Inl (MissingOptionName tag)
          else if long ot = [] \<and> short ot = 0 then
            (if next \<noteq> [] then Inl (MissingOptionName tag) else Inr None)
          else Inr (Some (ot\<lparr>helpText := next\<rparr>))
        else if par \<noteq> [] \<and> param ot \<noteq> [] then Inl (MultipleParameterNames tag)
        else
          let ot = (if par \<noteq> [] then ot\<lparr>param := par\<rparr> else ot)
          in if argPrefix arg = ''-'' then
               if short ot \<noteq> 0 then Inl (TooManyShortNames tag)
               else if tl arg = [] then parseTag_loop tag ot next
               else (case DecodeRune (tl arg) of (r, n) \<Rightarrow>
                       if n < length (tl arg) then Inl (InvalidShortName tag)
                       else parseTag_loop tag (ot\<lparr>short := r\<rparr>) next)
             else if argPrefix arg = ''--'' then
               if long ot \<noteq> [] then Inl (TooManyLongNames tag)
               else parseTag_loop tag (ot\<lparr>long := drop 2 arg\<rparr>) next
             else Inl (MustNotStartWithDashes tag))"
  by pat_completeness auto
termination
proof (relation "measure (\<lambda>(tag, ot, next). length next)", goal_cases)
  case 1
  show ?case by simp
next
  case (2 tag ot "next" arg rest par next')
  then show ?case using nextOption_shorter [of "next" arg par next'] by auto
next
  case (3 tag ot "next" arg rest par next')
  then show ?case using nextOption_shorter [of "next" arg par next'] by auto
next
  case (4 tag ot "next" arg rest par next')
  then show ?case using nextOption_shorter [of "next" arg par next'] by auto
qed

declare parseTag_loop.simps [simp del]

text \<open>\<open>parseTag\<close> parses a tag; \<open>Inr None\<close> is Go's \<open>nil, nil\<close> for an empty tag.\<close>

definition parseTag :: "string \<Rightarrow> tagError + optTag option" where
  "parseTag tag =
     (let tag = TrimSpace tag
      in if tag = [] then Inr None else parseTag_loop tag empty_optTag tag)"

section \<open>The tag parser and \<open>register\<close> of package \<open>flags\<close>\<close>

text \<open>Package \<open>flags\<close> (\<open>flags/options.go\<close>) has one name per tag.  Its \<open>optTag\<close> is
  the record \<open>flagsTag\<close>, with the fields \<open>name\<close>, \<open>param\<close> and \<open>help\<close> of the source
  written \<open>tagName\<close>, \<open>tagParam\<close> and \<open>tagHelp\<close>.\<close>

record flagsTag =
  tagName :: string
  tagParam :: string
  tagHelp :: string

function flags_parseTag_loop :: "string \<Rightarrow> flagsTag \<Rightarrow> string \<Rightarrow> tagError + flagsTag option" where
  "flags_parseTag_loop tag ot next =
     (case nextOption next of (arg, par, next) \<Rightarrow>
        if arg = [] \<or> arg = ''-'' \<or> arg = ''--'' then
          if par \<noteq> [] then Inl (MissingOptionName tag)
          else if tagName ot = [] then
            (if next \<noteq> [] then Inl (MissingOptionName tag) else Inr None)
          else Inr (Some (ot\<lparr>tagHelp := next\<rparr>))
        else if par \<noteq> [] \<and> tagParam ot \<noteq> [] then Inl (MultipleParameterNames tag)
        else
          let ot = (if par \<noteq> [] then ot\<lparr>tagParam := par\<rparr> else ot)
          in if tagName ot \<noteq> [] then Inl (TooManyNames tag)
             else flags_parseTag_loop tag
                    (ot\<lparr>tagName := (if prefix ''-'' (tl arg) then tl (tl arg) else tl arg)\<rparr>) next)"
  by pat_completeness auto
termination
proof (relation "measure (\<lambda>(tag, ot, next). length next)", goal_cases)
  case 1
  show ?case by simp
next
  case (2 tag ot "next" arg rest par next')
  then show ?case using nextOption_shorter [of "next" arg par next'] by auto
qed

declare flags_parseTag_loop.simps [simp del]

definition flags_parseTag :: "string \<Rightarrow> tagError + flagsTag option" where
  "flags_parseTag tag =
     (let tag = TrimSpace tag
      in if tag = [] then Inr None
         else flags_parseTag_loop tag \<lparr>tagName = [], tagParam = [], tagHelp = []\<rparr> tag)"

text \<open>What \<open>register\<close> sees of its argument through \<open>reflect\<close>: whether it is a pointer
  to a struct, and for each field its name, its \<open>getopt\<close> tag, whether it can be set and
  the dynamic type of the pointer to it, as far as the type switch tells types apart.\<close>

datatype fieldType =
    TValue | TDuration | TString | TInt | TInt64 | TUint | TUint64 | TBool | TUnsupported

record field =
  Name :: string
  Tag :: string
  CanSet :: bool
  Type :: fieldType

datatype ivalue = PtrToStruct "field list" | Struct "field list" | NotAStruct

text \<open>A call either returns or panics.\<close>

datatype regError = NotPointerToStruct

datatype panicValue = PanicTag tagError | PanicInvalidOptionType | PanicErr regError

datatype 'a outcome = Return 'a | Panic panicValue

text \<open>A \<open>flag.FlagSet\<close>, as far as \<open>register\<close> changes it: the flags defined so far, each
  with its name and usage.\<close>

type_synonym FlagSet = "(string \<times> string) list"

text \<open>\<open>strings.ToLower\<close> on the letters of ASCII, of which the names of the fields are
  made here; the lower case of other letters is not modelled.\<close>

definition toLowerChar :: "char \<Rightarrow> char" where
  "toLowerChar c =
     (if CHR ''A'' \<le> c \<and> c \<le> CHR ''Z'' then char_of (of_char c + (32::nat)) else c)"

definition ToLower :: "string \<Rightarrow> string" where
  "ToLower s = map toLowerChar s"

text \<open>The loop of \<open>register\<close> over the fields of the struct.\<close>

fun register_fields :: "field list \<Rightarrow> FlagSet \<Rightarrow> (regError option \<times> FlagSet) outcome" where
  "register_fields [] fset = Return (None, fset)"
| "register_fields (fld # rest) fset =
     (if Tag fld = ''-'' \<or> \<not> CanSet fld then register_fields rest fset
      else case flags_parseTag (Tag fld) of
        Inl err \<Rightarrow> Panic (PanicTag err)
      | Inr r \<Rightarrow>
          let ot = (case r of
                      None \<Rightarrow> \<lparr>tagName = ToLower (Name fld), tagParam = [], tagHelp = []\<rparr>
                    | Some ot \<Rightarrow> ot);
              ot = (if tagHelp ot = [] then ot\<lparr>tagHelp := ''unspecified''\<rparr> else ot)
          in if Type fld = TUnsupported then Panic PanicInvalidOptionType
             else register_fields rest (fset @ [(tagName ot, tagHelp ot)]))"

definition register :: "string \<Rightarrow> ivalue \<Rightarrow> FlagSet \<Rightarrow> (regError option \<times> FlagSet) outcome" where
  "register name i fset =
     (case i of
        PtrToStruct flds \<Rightarrow> register_fields flds fset
      | _ \<Rightarrow> Return (Some NotPointerToStruct, fset))"

definition Validate :: "ivalue \<Rightarrow> regError option outcome" where
  "Validate i = (case register [] i [] of Return (err, fset) \<Rightarrow> Return err | Panic p \<Rightarrow> Panic p)"

definition RegisterSet :: "string \<Rightarrow> ivalue \<Rightarrow> FlagSet \<Rightarrow> (regError option \<times> FlagSet) outcome" where
  "RegisterSet name i fset = register name i fset"

text \<open>\<open>Register\<close> registers with the command-line set \<open>cl\<close> and panics on an error.\<close>

definition Register :: "ivalue \<Rightarrow> FlagSet \<Rightarrow> FlagSet outcome" where
  "Register i cl =
     (case register [] i cl of
        Return (None, fset) \<Rightarrow> Return fset
      | Return (Some err, fset) \<Rightarrow> Panic (PanicErr err)
      | Panic p \<Rightarrow> Panic p)"

text \<open>\<open>Dup\<close> copies the struct; what matters here is when it panics.\<close>

fun Dup_fields :: "field list \<Rightarrow> unit outcome" where
  "Dup_fields [] = Return ()"
| "Dup_fields (fld # rest) =
     (if Tag fld = ''-'' \<or> \<not> CanSet fld then Dup_fields rest
      else case flags_parseTag (Tag fld) of
        Inl err \<Rightarrow> Panic (PanicTag err)
      | Inr r \<Rightarrow> Dup_fields rest)"

definition Dup :: "ivalue \<Rightarrow> ivalue outcome" where
  "Dup i =
     (case i of
        PtrToStruct flds \<Rightarrow>
          (case Dup_fields flds of Return u \<Rightarrow> Return (PtrToStruct flds) | Panic p \<Rightarrow> Panic p)
      | _ \<Rightarrow> Panic (PanicErr NotPointerToStruct))"

definition RegisterNew :: "string \<Rightarrow> ivalue \<Rightarrow> (ivalue \<times> FlagSet) outcome" where
  "RegisterNew name i =
     (case Dup i of
        Panic p \<Rightarrow> Panic p
      | Return i \<Rightarrow>
          (case register name i [] of
             Return (None, fset) \<Rightarrow> Return (i, fset)
           | Return (Some err, fset) \<Rightarrow> Panic (PanicErr err)
           | Panic p \<Rightarrow> Panic p))"

section \<open>Decoded trees\<close>

text \<open>
  A decoder returns a \<open>map[string]interface{}\<close>.  A value of the tree is modelled by the
  case of the type switches of the source that it takes: a \<open>TextMarshaler\<close> (with the text
  that \<open>MarshalText\<close> returns, \<open>None\<close> when it fails), a \<open>Stringer\<close> (with its string), a
  string, a number (with the text that the format \<open>%v\<close> prints for it), a bool, a nested
  map, the nil interface, or a value of any other type.

  A map is an association list: \<open>map_of\<close> reads a key, \<open>AList.update\<close> assigns to one and
  \<open>AList.delete\<close> deletes it.  Go ranges over a map in no fixed order; the model ranges
  in the order of the list.
\<close>

datatype val =
    VTextMarshaler "string option"
  | VStringer string
  | VString string
  | VNumber string
  | VBool bool
  | VMap "(string \<times> val) list"
  | VNil
  | VOther

type_synonym tree = "(string \<times> val) list"

datatype error =
    ErrorsNew string
  | MissingValue nat string
  | MissingName nat string
  | SpaceInName nat string
  | ConflictOnField string string
  | ReadFileError string
  | DecodeError string error
  | NotStringOrNumber string string

section \<open>The simple decoder\<close>

text \<open>\<open>unescape\<close> strips leading and trailing spaces and comments and processes backslashes.\<close>

fun unescape_loop :: "bool \<Rightarrow> string \<Rightarrow> string \<Rightarrow> string" where
  "unescape_loop escape out [] = out"
| "unescape_loop escape out (c # line) =
     (if escape then unescape_loop False (out @ [c]) line
      else if c = CHR 0x5C then unescape_loop True out line
      else if c = CHR ''#'' then out
      else unescape_loop escape (out @ [c]) line)"

definition unescape :: "string \<Rightarrow> string" where
  "unescape line =
     (let line = dropWhile (\<lambda>c. c = CHR '' '' \<or> c = CHR 0x09) line
      in if line = [] \<or> hd line = CHR ''#'' then []
         else TrimSpace (unescape_loop False [] line))"

text \<open>\<open>bytes.Split\<close> and \<open>strings.Split\<close> with a separator of one byte.\<close>

fun Split :: "string \<Rightarrow> char \<Rightarrow> string list" where
  "Split [] sep = [[]]"
| "Split (c # s) sep =
     (if c = sep then [] # Split s sep
      else (case Split s sep of
              [] \<Rightarrow> [[c]]
            | x # xs \<Rightarrow> (c # x) # xs))"

text \<open>The descent along the fields of a dotted name, and the final assignment.
  \<open>name\<close> is the whole name, for the error.\<close>

fun assign_fields :: "string \<Rightarrow> string list \<Rightarrow> string \<Rightarrow> tree \<Rightarrow> error + tree" where
  "assign_fields name [] v m = Inr m"
| "assign_fields name [fld] v m = Inr (AList.update fld (VString v) m)"
| "assign_fields name (fld # flds) v m =
     (case map_of m fld of
        None \<Rightarrow>
          (case assign_fields name flds v [] of
             Inl err \<Rightarrow> Inl err
           | Inr nm \<Rightarrow> Inr (AList.update fld (VMap nm) m))
      | Some VNil \<Rightarrow>
          (case assign_fields name flds v [] of
             Inl err \<Rightarrow> Inl err
           | Inr nm \<Rightarrow> Inr (AList.update fld (VMap nm) m))
      | Some (VMap m1) \<Rightarrow>
          (case assign_fields name flds v m1 of
             Inl err \<Rightarrow> Inl err
           | Inr m1 \<Rightarrow> Inr (AList.update fld (VMap m1) m))
      | Some _ \<Rightarrow> Inl (ConflictOnField name fld))"

fun SimpleDecoder_lines :: "nat \<Rightarrow> string list \<Rightarrow> tree \<Rightarrow> error + tree" where
  "SimpleDecoder_lines n [] m = Inr m"
| "SimpleDecoder_lines n (d # ds) m =
     (let line = unescape d
      in if line = [] then SimpleDecoder_lines (n + 1) ds m
         else case Index line ''='' of
           None \<Rightarrow> Inl (MissingValue (n + 1) line)
         | Some x \<Rightarrow>
             if x = 0 then Inl (MissingName (n + 1) line)
             else
               let name = TrimSpace (take x line)
               in if Index name '' '' \<noteq> None then Inl (SpaceInName (n + 1) line)
                  else
                    let v = TrimSpace (drop (x + 1) line);
                        e = length v;
                        v = (if e > 1 \<and> v ! 0 = CHR 0x22 \<and> v ! (e - 1) = CHR 0x22
                             then take (e - 2) (drop 1 v) else v)
                    in (case assign_fields name (Split name CHR ''.'') v m of
                          Inl err \<Rightarrow> Inl err
                        | Inr m \<Rightarrow> SimpleDecoder_lines (n + 1) ds m))"

definition SimpleDecoder :: "string \<Rightarrow> error + tree" where
  "SimpleDecoder data = SimpleDecoder_lines 0 (Split data CHR 0x0A) []"

section \<open>The overlay engine (\<open>Flags\<close>)\<close>

text \<open>
  \<open>mergemap\<close> merges the entries of \<open>old\<close> into \<open>new\<close> and returns \<open>new\<close>; a nil map is
  \<open>None\<close>.  \<open>mergemap_entries\<close> is its loop over the entries of \<open>old\<close>, and \<open>dup\<close> is
  the value that the loop stores for an entry: a nested map is rebuilt by
  \<open>mergemap(nil, vm)\<close>, any other value is stored as it is.
\<close>

fun mergemap_entries :: "tree \<Rightarrow> tree \<Rightarrow> tree"
  and dup :: "val \<Rightarrow> val" where
  "mergemap_entries new [] = new"
| "mergemap_entries new ((k, v) # old) = mergemap_entries (AList.update k (dup v) new) old"
| "dup (VMap vm) = VMap (mergemap_entries [] vm)"
| "dup v = v"

definition mergemap :: "tree option \<Rightarrow> tree option \<Rightarrow> tree" where
  "mergemap new old =
     mergemap_entries (case new of None \<Rightarrow> [] | Some new \<Rightarrow> new)
       (case old of None \<Rightarrow> [] | Some old \<Rightarrow> old)"

text \<open>
  A \<open>getopt.Option\<close>, as far as \<open>Flags\<close> uses it: its names, whether the command line
  has set it, and the text of the value bound to it.  The package \<open>getopt\<close> is not part
  of the repository; \<open>o.Value().Set(s, o)\<close> is taken to store the text \<open>s\<close>.
\<close>

record getopt_Option =
  LongName :: string
  ShortName :: string
  Seen :: bool
  Value :: string

text \<open>
  \<open>Flags\<close>.  A \<open>*getopt.Set\<close> is a reference: \<open>Sets\<close> holds the name of each set and its
  address in the store of option sets (\<open>optionSets\<close> below).  The fields \<open>path\<close>, \<open>opt\<close>
  and \<open>m\<close> are written \<open>f_path\<close>, \<open>f_opt\<close> and \<open>f_m\<close>.  A nil \<open>Decoder\<close>, a nil
  \<open>opt\<close> and a nil map \<open>m\<close> are \<open>None\<close>.
\<close>

record Flags =
  Sets :: "(string \<times> nat) list"
  IgnoreUnknown :: bool
  Decoder :: "(string \<Rightarrow> error + tree) option"
  f_path :: string
  f_opt :: "getopt_Option option"
  f_m :: "tree option"

text \<open>
  The world outside a \<open>Flags\<close>: the store of option sets, each with its options in the
  order in which \<open>VisitAll\<close> visits them, and the log of the paths handed to
  \<open>ioutil.ReadFile\<close>.  The file system is a function from a path to the error or the
  content that reading it gives.
\<close>

record world =
  optionSets :: "nat \<Rightarrow> getopt_Option list"
  reads :: "string list"

type_synonym filesystem = "string \<Rightarrow> error + string"

definition rescanFlags :: string where
  "rescanFlags = [CHR 0x00, CHR 0x00, CHR 0x00]"

text \<open>\<open>strings.Join\<close>.\<close>

fun Join :: "string list \<Rightarrow> string \<Rightarrow> string" where
  "Join [] sep = []"
| "Join [x] sep = x"
| "Join (x # y # ys) sep = x @ sep @ Join (y # ys) sep"

text \<open>
  The function that \<open>Set\<close> passes to \<open>VisitAll\<close>, for one option \<open>ot\<close>: \<open>value\<close> is the
  path, \<open>err\<close> the error variable of the enclosing loop and \<open>m\<close> the map of the set.
\<close>

definition visit ::
  "string \<Rightarrow> error option \<Rightarrow> tree \<Rightarrow> getopt_Option \<Rightarrow> error option \<times> tree \<times> getopt_Option" where
  "visit value err m ot =
     (if err \<noteq> None then (err, m, ot)
      else
        let n = LongName ot;
            r = (if n \<noteq> [] then map_of m n else None);
            (n, r) = (if r = None
                      then (let n = ShortName ot
                            in (n, if n \<noteq> [] then map_of m n else None))
                      else (n, r))
        in case r of
             None \<Rightarrow> (err, m, ot)
           | Some v \<Rightarrow>
               let m = AList.delete n m;
                   apply = (\<lambda>s. if Seen ot then (err, m, ot) else (err, m, ot\<lparr>Value := s\<rparr>))
               in (case v of
                     VTextMarshaler None \<Rightarrow> (err, m, ot)
                   | VTextMarshaler (Some data) \<Rightarrow> apply data
                   | VStringer s \<Rightarrow> apply s
                   | VString s \<Rightarrow> apply s
                   | VNumber s \<Rightarrow> apply s
                   | VBool b \<Rightarrow> apply (if b then ''true'' else ''false'')
                   | _ \<Rightarrow> (Some (NotStringOrNumber value n), m, ot)))"

text \<open>\<open>VisitAll\<close> with that function, over the options of one set.\<close>

fun VisitAll ::
  "string \<Rightarrow> error option \<Rightarrow> tree \<Rightarrow> getopt_Option list \<Rightarrow>
   error option \<times> tree \<times> getopt_Option list" where
  "VisitAll value err m [] = (err, m, [])"
| "VisitAll value err m (ot # ots) =
     (case visit value err m ot of (err, m, ot) \<Rightarrow>
        (case VisitAll value err m ots of (err, m, ots) \<Rightarrow> (err, m, ot # ots)))"

text \<open>
  The loop of \<open>Set\<close> over \<open>f.Sets\<close> (lines 216 to 294): \<open>m\<close> is the working duplicate.
  A set with a name works on the nested map under that name, which is part of \<open>m\<close>.
  The result is the error that ends the loop, if any, with the working map and the store
  as they are then.
\<close>

fun apply_sets ::
  "string \<Rightarrow> (string \<times> nat) list \<Rightarrow> tree \<Rightarrow> (nat \<Rightarrow> getopt_Option list) \<Rightarrow>
   error option \<times> tree \<times> (nat \<Rightarrow> getopt_Option list)" where
  "apply_sets value [] m store = (None, m, store)"
| "apply_sets value ((name, a) # sets) m store =
     (if name \<noteq> [] then
        (case map_of m name of
           Some (VMap sm) \<Rightarrow>
             (case VisitAll value None sm (store a) of (err, sm, ots) \<Rightarrow>
                let m = AList.update name (VMap sm) m;
                    store = store(a := ots)
                in if err \<noteq> None then (err, m, store)
                   else apply_sets value sets m store)
         | _ \<Rightarrow> apply_sets value sets m store)
      else
        (case VisitAll value None m (store a) of (err, m, ots) \<Rightarrow>
           let store = store(a := ots)
           in if err \<noteq> None then (err, m, store)
              else apply_sets value sets m store))"

text \<open>The names of the flags left in the working map, and the error made of them
  (lines 302 to 322).\<close>

definition unknown_names :: "tree \<Rightarrow> string list" where
  "unknown_names m =
     concat (map (\<lambda>(k, v). case v of
                              VMap sm \<Rightarrow> map (\<lambda>(sk, sv). ''--'' @ k @ ''.'' @ sk) sm
                            | _ \<Rightarrow> [''--'' @ k]) m)"

definition unrecognized :: "string \<Rightarrow> tree \<Rightarrow> error option" where
  "unrecognized value m =
     (let names = [value @ '': unrecognized flags:''] @ unknown_names m
      in if length names = 1 then None
         else Some (ErrorsNew (Join (hd names # sort (tl names)) ([CHR 0x0A] @ ''    ''))))"

text \<open>The second half of \<open>Set\<close>, from the duplicate on (lines 211 to 322).\<close>

definition apply_flags :: "string \<Rightarrow> Flags \<Rightarrow> world \<Rightarrow> error option \<times> world" where
  "apply_flags value f w =
     (let m = mergemap None (f_m f)
      in case apply_sets value (Sets f) m (optionSets w) of (err, m, store) \<Rightarrow>
           let w = w\<lparr>optionSets := store\<rparr>
           in if err \<noteq> None then (err, w)
              else if IgnoreUnknown f then (None, w)
              else (unrecognized value m, w))"

text \<open>
  \<open>Set\<close>.  It returns what the Go method returns (or that it panics, when it calls a nil
  \<open>Decoder\<close>), with the \<open>Flags\<close> and the world as the call leaves them.
\<close>

datatype result = Returns "error option" | Panics

definition Set ::
  "env \<Rightarrow> filesystem \<Rightarrow> Flags \<Rightarrow> world \<Rightarrow> string \<Rightarrow> getopt_Option option \<Rightarrow>
   result \<times> Flags \<times> world" where
  "Set getenv readFile f w value opt =
     (let value = expand getenv value
      in if value = [] \<or> value = ''?'' then (Returns None, f, w)
         else if opt = None \<and> f_opt f = None
           then (Returns (Some (ErrorsNew ''options.Flags: not registered as an option'')), f, w)
         else if opt \<noteq> None \<and> \<not> Seen (the opt) then (Returns None, f, w)
         else if value = rescanFlags then
           (case apply_flags (f_path f) f w of (err, w) \<Rightarrow> (Returns err, f, w))
         else
           let optional = (hd value = CHR ''?'');
               value = (if optional then tl value else value);
               w = w\<lparr>reads := reads w @ [value]\<rparr>
           in case readFile value of
                Inl err \<Rightarrow> (Returns (if optional then None else Some err), f, w)
              | Inr data \<Rightarrow>
                  let f = f\<lparr>f_path := value\<rparr>;
                      data = TrimSpace data
                  in if data = [] then (Returns None, f, w)
                     else (case Decoder f of
                             None \<Rightarrow> (Panics, f, w)
                           | Some decoder \<Rightarrow>
                               (case decoder data of
                                  Inl err \<Rightarrow> (Returns (Some (DecodeError value err)), f, w)
                                | Inr m \<Rightarrow>
                                    let f = f\<lparr>f_m := Some (mergemap (f_m f) (Some m))\<rparr>
                                    in (case apply_flags value f w of
                                          (err, w) \<Rightarrow> (Returns err, f, w)))))"

text \<open>\<open>Rescan\<close> sets values in the set at address \<open>a\<close> from the values previously set
  in \<open>f\<close>.\<close>

definition Rescan ::
  "env \<Rightarrow> filesystem \<Rightarrow> Flags \<Rightarrow> world \<Rightarrow> string \<Rightarrow> nat \<Rightarrow> result \<times> Flags \<times> world" where
  "Rescan getenv readFile f w name a =
     (let osets = Sets f
      in case Set getenv readFile (f\<lparr>Sets := [(name, a)]\<rparr>) w rescanFlags None of
           (r, f, w) \<Rightarrow> (r, f\<lparr>Sets := osets\<rparr>, w))"


section \<open>Maps as references\<close>

text \<open>
  A Go map is a reference: \<open>m := m\<close>, \<open>m = sm\<close> and a map stored as a value of another
  map all name the same map, and \<open>delete(m, n)\<close> changes it for all of them.  To say what
  the loop of \<open>Set\<close> deletes from, maps live in a heap: a value of a map is an address of
  another map (\<open>RMap\<close>) or a value that is not a \<open>map[string]interface{}\<close> (\<open>RVal\<close>).
  The heap gives the entries of the map at each address; addresses from \<open>free\<close> on are
  not in use.
\<close>

datatype ref_val = RMap nat | RVal val

record heap =
  cells :: "nat \<Rightarrow> (string \<times> ref_val) list"
  free :: nat

text \<open>\<open>map[string]interface{}{}\<close>: a new, empty map.\<close>

definition h_make :: "heap \<Rightarrow> heap \<times> nat" where
  "h_make h = (h\<lparr>cells := (cells h)(free h := []), free := Suc (free h)\<rparr>, free h)"

text \<open>\<open>m[k] = v\<close> and \<open>delete(m, k)\<close>, for the map at address \<open>a\<close>.\<close>

definition h_assign :: "nat \<Rightarrow> string \<Rightarrow> ref_val \<Rightarrow> heap \<Rightarrow> heap" where
  "h_assign a k v h = h\<lparr>cells := (cells h)(a := AList.update k v (cells h a))\<rparr>"

definition h_delete :: "nat \<Rightarrow> string \<Rightarrow> heap \<Rightarrow> heap" where
  "h_delete a k h = h\<lparr>cells := (cells h)(a := AList.delete k (cells h a))\<rparr>"

text \<open>
  \<open>mergemap\<close> (lines 344 to 355) on the heap: the loop over the entries of \<open>old\<close>, which
  assigns to the map at \<open>new\<close>, and the function.  A nested map is duplicated by the
  recursive call \<open>mergemap(nil, vm)\<close>, which reads the entries of \<open>vm\<close> after it has made
  the new map.  The recursion follows the nesting of the maps, which is not bounded by any
  argument, so it is bounded by the first argument here; \<open>None\<close> is a nesting deeper than
  that.
\<close>

fun h_mergemap_entries :: "nat \<Rightarrow> heap \<Rightarrow> nat \<Rightarrow> (string \<times> ref_val) list \<Rightarrow> heap option" where
  "h_mergemap_entries n h new [] = Some h"
| "h_mergemap_entries n h new ((k, RVal x) # old) =
     h_mergemap_entries n (h_assign new k (RVal x) h) new old"
| "h_mergemap_entries 0 h new ((k, RMap vm) # old) = None"
| "h_mergemap_entries (Suc n) h new ((k, RMap vm) # old) =
     (case h_make h of (h1, c) \<Rightarrow>
        (case h_mergemap_entries n h1 c (cells h1 vm) of
           None \<Rightarrow> None
         | Some h2 \<Rightarrow> h_mergemap_entries (Suc n) (h_assign new k (RMap c) h2) new old))"

definition h_mergemap :: "nat \<Rightarrow> heap \<Rightarrow> nat option \<Rightarrow> nat option \<Rightarrow> (heap \<times> nat) option" where
  "h_mergemap n h new old =
     (case (case new of None \<Rightarrow> h_make h | Some a \<Rightarrow> (h, a)) of (h1, a) \<Rightarrow>
        (case h_mergemap_entries n h1 a (case old of None \<Rightarrow> [] | Some b \<Rightarrow> cells h1 b) of
           None \<Rightarrow> None
         | Some h2 \<Rightarrow> Some (h2, a)))"

text \<open>
  The function that \<open>Set\<close> gives to \<open>VisitAll\<close>, \<open>VisitAll\<close> and the loop over
  \<open>f.Sets\<close>, on the heap: \<open>m\<close> is the address of the map that the loop works on, and
  \<open>m = sm\<close> makes it the address of the nested map.
\<close>

definition h_visit ::
  "string \<Rightarrow> error option \<Rightarrow> nat \<Rightarrow> heap \<Rightarrow> getopt_Option \<Rightarrow> error option \<times> heap \<times> getopt_Option" where
  "h_visit value err m h ot =
     (if err \<noteq> None then (err, h, ot)
      else
        let n = LongName ot;
            r = (if n \<noteq> [] then map_of (cells h m) n else None);
            (n, r) = (if r = None
                      then (let n = ShortName ot
                            in (n, if n \<noteq> [] then map_of (cells h m) n else None))
                      else (n, r))
        in case r of
             None \<Rightarrow> (err, h, ot)
           | Some v \<Rightarrow>
               let h = h_delete m n h;
                   apply = (\<lambda>s. if Seen ot then (err, h, ot) else (err, h, ot\<lparr>Value := s\<rparr>))
               in (case v of
                     RVal (VTextMarshaler None) \<Rightarrow> (err, h, ot)
                   | RVal (VTextMarshaler (Some data)) \<Rightarrow> apply data
                   | RVal (VStringer s) \<Rightarrow> apply s
                   | RVal (VString s) \<Rightarrow> apply s
                   | RVal (VNumber s) \<Rightarrow> apply s
                   | RVal (VBool b) \<Rightarrow> apply (if b then ''true'' else ''false'')
                   | _ \<Rightarrow> (Some (NotStringOrNumber value n), h, ot)))"

fun h_VisitAll ::
  "string \<Rightarrow> error option \<Rightarrow> nat \<Rightarrow> heap \<Rightarrow> getopt_Option list \<Rightarrow>
   error option \<times> heap \<times> getopt_Option list" where
  "h_VisitAll value err m h [] = (err, h, [])"
| "h_VisitAll value err m h (ot # ots) =
     (case h_visit value err m h ot of (err, h, ot) \<Rightarrow>
        (case h_VisitAll value err m h ots of (err, h, ots) \<Rightarrow> (err, h, ot # ots)))"

fun h_apply_sets ::
  "string \<Rightarrow> (string \<times> nat) list \<Rightarrow> nat \<Rightarrow> heap \<Rightarrow> (nat \<Rightarrow> getopt_Option list) \<Rightarrow>
   error option \<times> heap \<times> (nat \<Rightarrow> getopt_Option list)" where
  "h_apply_sets value [] m h store = (None, h, store)"
| "h_apply_sets value ((name, a) # sets) m h store =
     (if name \<noteq> [] then
        (case map_of (cells h m) name of
           Some (RMap sm) \<Rightarrow>
             (case h_VisitAll value None sm h (store a) of (err, h, ots) \<Rightarrow>
                let store = store(a := ots)
                in if err \<noteq> None then (err, h, store)
                   else h_apply_sets value sets m h store)
         | _ \<Rightarrow> h_apply_sets value sets m h store)
      else
        (case h_VisitAll value None m h (store a) of (err, h, ots) \<Rightarrow>
           let store = store(a := ots)
           in if err \<noteq> None then (err, h, store)
              else h_apply_sets value sets m h store))"

text \<open>
  Lines 213 to 294 of \<open>Set\<close>: \<open>m := mergemap(nil, f.m)\<close> and the loop over \<open>f.Sets\<close>, with
  \<open>f.m\<close> at the address \<open>fm\<close> (\<open>None\<close> for a nil map).  The result is the error, the address
  of the duplicate, the heap and the store of the option sets.
\<close>

definition h_duplicate_and_apply ::
  "nat \<Rightarrow> string \<Rightarrow> (string \<times> nat) list \<Rightarrow> nat option \<Rightarrow> heap \<Rightarrow> (nat \<Rightarrow> getopt_Option list) \<Rightarrow>
   (error option \<times> nat \<times> heap \<times> (nat \<Rightarrow> getopt_Option list)) option" where
  "h_duplicate_and_apply n value sets fm h store =
     (case h_mergemap n h None fm of
        None \<Rightarrow> None
      | Some (h, m) \<Rightarrow>
          (case h_apply_sets value sets m h store of (err, h, store) \<Rightarrow> Some (err, m, h, store)))"
section \<open>Auxiliary definitions for the statements\<close>

text \<open>The value put in place of \<open>${body}\<close>: the text between the braces is split at
  its first \<open>:-\<close>, as lines 379 to 388 of the source do.\<close>

definition substitute :: "env \<Rightarrow> string \<Rightarrow> string" where
  "substitute getenv body =
     (case Index body '':-'' of
        Some x \<Rightarrow> if getenv (take x body) \<noteq> '''' then getenv (take x body) else drop (x + 2) body
      | None \<Rightarrow> getenv body)"

text \<open>An environment with \<open>V1=value1\<close> and \<open>V2=value2\<close>, everything else unset.\<close>

definition E :: env where
  "E = (\<lambda>n. if n = ''V1'' then ''value1'' else if n = ''V2'' then ''value2'' else '''')"

text \<open>Inputs for the closed theorems below: an empty environment, a file system in which
  no file can be read, options and a registered \<open>Flags\<close>.\<close>

definition noEnv :: env where
  "noEnv = (\<lambda>name. [])"

definition noFiles :: filesystem where
  "noFiles = (\<lambda>p. Inl (ReadFileError p))"

definition unseenOption :: getopt_Option where
  "unseenOption = \<lparr>LongName = ''name'', ShortName = ''n'', Seen = False, Value = ''fred''\<rparr>"

definition seenOption :: getopt_Option where
  "seenOption = \<lparr>LongName = ''flags'', ShortName = [], Seen = True, Value = []\<rparr>"

definition someFlags :: Flags where
  "someFlags = \<lparr>Sets = [([], 0)], IgnoreUnknown = False, Decoder = Some SimpleDecoder,
     f_path = [], f_opt = Some seenOption, f_m = None\<rparr>"

definition zeroFlags :: Flags where
  "zeroFlags = \<lparr>Sets = [], IgnoreUnknown = False, Decoder = None,
     f_path = [], f_opt = None, f_m = None\<rparr>"

definition someWorld :: world where
  "someWorld = \<lparr>optionSets = (\<lambda>a. if a = 0 then [unseenOption, seenOption] else []), reads = []\<rparr>"

text \<open>A Go map has one value for each key.  An association list represents a map of Go
  when its keys are distinct, at every level of nesting.\<close>

fun wf_tree :: "tree \<Rightarrow> bool"
  and wf_val :: "val \<Rightarrow> bool" where
  "wf_tree [] = True"
| "wf_tree ((k, v) # m) = (k \<notin> fst ` set m \<and> wf_val v \<and> wf_tree m)"
| "wf_val (VMap vm) = wf_tree vm"
| "wf_val v = True"

text \<open>A registered \<open>Flags\<close> that ignores the flags it does not know, as a program has
  it that registers a set of options after it has read its flags files.\<close>

definition laterFlags :: Flags where
  "laterFlags = \<lparr>Sets = [([], 0)], IgnoreUnknown = True, Decoder = Some SimpleDecoder,
     f_path = [], f_opt = Some seenOption, f_m = None\<rparr>"

text \<open>Two overlay files: \<open>A\<close> sets \<open>child.a\<close>, \<open>B\<close> sets \<open>child.b\<close>.\<close>

definition twoFiles :: filesystem where
  "twoFiles = (\<lambda>p. if p = ''A'' then Inr ''child.a = 1''
                    else if p = ''B'' then Inr ''child.b = 2''
                    else Inl (ReadFileError p))"

text \<open>The error that ends the loop of \<open>Set\<close> over the sets, if any, and the working map
  that the loop leaves.\<close>

definition apply_error :: "string \<Rightarrow> Flags \<Rightarrow> world \<Rightarrow> error option" where
  "apply_error value f w =
     fst (apply_sets value (Sets f) (mergemap None (f_m f)) (optionSets w))"

definition leftover :: "string \<Rightarrow> Flags \<Rightarrow> world \<Rightarrow> tree" where
  "leftover value f w =
     fst (snd (apply_sets value (Sets f) (mergemap None (f_m f)) (optionSets w)))"

text \<open>
  Modelled from the spec: the command line parser belongs to package \<open>getopt\<close>, outside
  the repository.  When the argument stream supplies a flag with the value \<open>v\<close>, the
  parser marks the option as seen and binds \<open>v\<close> to it.  \<open>command_line a i v\<close> does this to
  the option at position \<open>i\<close> of the set at address \<open>a\<close>.
\<close>

definition command_line :: "nat \<Rightarrow> nat \<Rightarrow> string \<Rightarrow> world \<Rightarrow> world" where
  "command_line a i v w =
     w\<lparr>optionSets := (optionSets w)
          (a := (optionSets w a)[i := (optionSets w a ! i)\<lparr>Seen := True, Value := v\<rparr>])\<rparr>"

text \<open>What a call may do to an option: nothing, or bind a text to an option that has not
  been seen.\<close>

definition may_change :: "getopt_Option \<Rightarrow> getopt_Option \<Rightarrow> bool" where
  "may_change ot ot' \<longleftrightarrow> ot' = ot \<or> (\<not> Seen ot \<and> (\<exists>s. ot' = ot\<lparr>Value := s\<rparr>))"

text \<open>The top-level keys of an accumulated tree.\<close>

definition keys :: "tree option \<Rightarrow> string set" where
  "keys m = (case m of None \<Rightarrow> {} | Some t \<Rightarrow> fst ` set t)"

text \<open>A file with a flag of the root set, a flag of no set and a nested flag of no set.\<close>

definition flagsFile :: filesystem where
  "flagsFile = (\<lambda>p. if p = ''flags''
                     then Inr (''name = bob'' @ [CHR 0x0A] @ ''zz = 1'' @ [CHR 0x0A] @ ''aa.x = 2'')
                     else Inl (ReadFileError p))"

text \<open>The map on which the loop of \<open>Set\<close> works for a set with the given name, and the
  working map once the loop has changed that map.\<close>

definition working_map :: "string \<Rightarrow> tree \<Rightarrow> tree" where
  "working_map name m =
     (if name \<noteq> [] then (case map_of m name of Some (VMap sm) \<Rightarrow> sm | _ \<Rightarrow> []) else m)"

definition put_back :: "string \<Rightarrow> tree \<Rightarrow> tree \<Rightarrow> tree" where
  "put_back name sm m = (if name \<noteq> [] then AList.update name (VMap sm) m else sm)"

text \<open>Bytes of ASCII white space, of which a separator of a tag is made here, and the
  continuation bytes of UTF-8.\<close>

definition asciiSpace :: "char \<Rightarrow> bool" where
  "asciiSpace c \<longleftrightarrow> c \<in> {CHR 0x09, CHR 0x0A, CHR 0x0B, CHR 0x0C, CHR 0x0D, CHR '' ''}"

definition continuation :: "char \<Rightarrow> bool" where
  "continuation c \<longleftrightarrow> 0x80 \<le> (of_char c :: nat) \<and> (of_char c :: nat) < 0xC0"

text \<open>
  An option token is a word that starts with a dash, has no space character, is not
  changed by trimming (it does not end in white space) and whose part before any \<open>=\<close> is
  not a bare \<open>-\<close> or \<open>--\<close>.  A separator is a space character, possibly followed by more
  ASCII white space.  \<open>absorb\<close> is what one turn of the loop of \<open>parseTag\<close> does to the
  descriptor for the option \<open>arg\<close> with the parameter \<open>par\<close>.
\<close>

definition option_token :: "string \<Rightarrow> bool" where
  "option_token t \<longleftrightarrow>
     t \<noteq> [] \<and> hd t = CHR ''-'' \<and> CHR '' '' \<notin> set t \<and> TrimSpace t = t \<and>
     takeWhile (\<lambda>c. c \<noteq> CHR ''='') t \<notin> {''-'', ''--''}"

definition separator :: "string \<Rightarrow> bool" where
  "separator sep \<longleftrightarrow> sep \<noteq> [] \<and> hd sep = CHR '' '' \<and> list_all asciiSpace sep"

definition absorb :: "optTag \<Rightarrow> string \<Rightarrow> string \<Rightarrow> (string \<Rightarrow> tagError) + optTag" where
  "absorb ot arg par =
     (if par \<noteq> [] \<and> param ot \<noteq> [] then Inl MultipleParameterNames
      else
        let ot = (if par \<noteq> [] then ot\<lparr>param := par\<rparr> else ot)
        in if argPrefix arg = ''-'' then
             if short ot \<noteq> 0 then Inl TooManyShortNames
             else if tl arg = [] then Inr ot
             else (case DecodeRune (tl arg) of (r, n) \<Rightarrow>
                     if n < length (tl arg) then Inl InvalidShortName
                     else Inr (ot\<lparr>short := r\<rparr>))
           else if argPrefix arg = ''--'' then
             if long ot \<noteq> [] then Inl TooManyLongNames
             else Inr (ot\<lparr>long := drop 2 arg\<rparr>)
           else Inl MustNotStartWithDashes)"

text \<open>
  The tree that the entries of a map stand for in a heap, down to a depth, and the value
  that a value stands for.
\<close>

fun tree_of :: "nat \<Rightarrow> heap \<Rightarrow> (string \<times> ref_val) list \<Rightarrow> tree" where
  "tree_of n h [] = []"
| "tree_of n h ((k, RVal x) # es) = (k, x) # tree_of n h es"
| "tree_of 0 h ((k, RMap b) # es) = (k, VMap []) # tree_of 0 h es"
| "tree_of (Suc n) h ((k, RMap b) # es) =
     (k, VMap (tree_of n h (cells h b))) # tree_of (Suc n) h es"

definition val_of :: "nat \<Rightarrow> heap \<Rightarrow> ref_val \<Rightarrow> val" where
  "val_of n h v =
     (case v of
        RVal x \<Rightarrow> x
      | RMap b \<Rightarrow> VMap (case n of 0 \<Rightarrow> [] | Suc m \<Rightarrow> tree_of m h (cells h b)))"

text \<open>
  A value that a decoder stores as such: not a \<open>map[string]interface{}\<close>, which is stored
  as an address.
\<close>

definition leaf :: "ref_val \<Rightarrow> bool" where
  "leaf v = (case v of RVal (VMap t) \<Rightarrow> False | _ \<Rightarrow> True)"

text \<open>
  The map at \<open>a\<close> and the maps nested in it lie below the address \<open>F\<close>, and are nested
  less than \<open>n\<close> deep; the same for the maps that a list of entries has.
\<close>

fun deep :: "nat \<Rightarrow> nat \<Rightarrow> heap \<Rightarrow> nat \<Rightarrow> bool" where
  "deep F 0 h a = False"
| "deep F (Suc n) h a =
     (a < F \<and> list_all (\<lambda>(k, v). case v of RMap b \<Rightarrow> deep F n h b | _ \<Rightarrow> leaf v) (cells h a))"

definition source_entries :: "nat \<Rightarrow> nat \<Rightarrow> heap \<Rightarrow> (string \<times> ref_val) list \<Rightarrow> bool" where
  "source_entries F n h es =
     list_all (\<lambda>(k, v). case v of RMap b \<Rightarrow> deep F n h b | _ \<Rightarrow> leaf v) es"

text \<open>
  The maps from an address on only have maps at later addresses in use
  (\<open>region_above\<close>), or only maps from that address on (\<open>closed_from\<close>).
\<close>

definition region_above :: "nat \<Rightarrow> heap \<Rightarrow> bool" where
  "region_above new h \<longleftrightarrow>
     (\<forall>a k b. new \<le> a \<and> a < free h \<and> (k, RMap b) \<in> set (cells h a) \<longrightarrow> new < b \<and> b < free h)"

definition closed_from :: "nat \<Rightarrow> heap \<Rightarrow> bool" where
  "closed_from F h \<longleftrightarrow>
     (\<forall>a k b. F \<le> a \<and> a < free h \<and> (k, RMap b) \<in> set (cells h a) \<longrightarrow> F \<le> b \<and> b < free h)"

text \<open>
  A heap with an accumulated tree at address 0, which has a nested map at address 1; a
  \<open>Flags\<close> that has accumulated that tree, with the root set and a set named \<open>child\<close>;
  the options of the set \<open>child\<close>, and a world that has them at address 1.
\<close>

definition someHeap :: heap where
  "someHeap = \<lparr>cells = (\<lambda>a. if a = 0 then [(''name'', RVal (VString ''bob'')), (''child'', RMap 1)]
                           else if a = 1 then [(''a'', RVal (VString ''1''))]
                           else []),
               free = 2\<rparr>"

definition heapFlags :: Flags where
  "heapFlags = \<lparr>Sets = [([], 0), (''child'', 1)], IgnoreUnknown = False,
     Decoder = Some SimpleDecoder, f_path = ''A'', f_opt = Some seenOption,
     f_m = Some [(''name'', VString ''bob''), (''child'', VMap [(''a'', VString ''1'')])]\<rparr>"

definition childOptions :: "getopt_Option list" where
  "childOptions = [\<lparr>LongName = ''a'', ShortName = [], Seen = False, Value = []\<rparr>,
                   \<lparr>LongName = ''b'', ShortName = [], Seen = False, Value = []\<rparr>]"

definition childWorld :: world where
  "childWorld = \<lparr>optionSets = (\<lambda>a. if a = 0 then [unseenOption, seenOption]
                                  else if a = 1 then childOptions else []),
                 reads = []\<rparr>"

text \<open>The \<open>Flags\<close> after the overlay \<open>A\<close> and then the overlay \<open>B\<close>.\<close>

definition afterTwoFiles :: Flags where
  "afterTwoFiles =
     fst (snd (Set noEnv twoFiles
       (fst (snd (Set noEnv twoFiles laterFlags someWorld ''A'' None))) someWorld ''B'' None))"
section \<open>Properties of \<open>expand\<close>\<close>

lemma expand_loop_none:
  "Index s ''${'' = None \<Longrightarrow> expand_loop getenv parts s = concat parts @ s"
  by (subst expand_loop.simps) simp

lemma expand_loop_end:
  "Index s ''${'' = Some x \<Longrightarrow> x + 2 = length s \<Longrightarrow> expand_loop getenv parts s = concat parts @ s"
  by (subst expand_loop.simps) simp

lemma expand_loop_escape:
  "Index s ''${'' = Some x \<Longrightarrow> x + 2 \<noteq> length s \<Longrightarrow> s ! (x + 2) = CHR ''$'' \<Longrightarrow>
   expand_loop getenv parts s = expand_loop getenv (parts @ [take (x + 2) s]) (drop (x + 3) s)"
  by (subst expand_loop.simps) simp

lemma expand_loop_open:
  "Index s ''${'' = Some x \<Longrightarrow> x + 2 \<noteq> length s \<Longrightarrow> s ! (x + 2) \<noteq> CHR ''$'' \<Longrightarrow>
   Index (drop (x + 2) s) ''}'' = None \<Longrightarrow>
   expand_loop getenv parts s = concat parts @ take x s @ ''${'' @ drop (x + 2) s"
  by (subst expand_loop.simps) simp

lemma expand_loop_subst:
  "Index s ''${'' = Some x \<Longrightarrow> x + 2 \<noteq> length s \<Longrightarrow> s ! (x + 2) \<noteq> CHR ''$'' \<Longrightarrow>
   Index (drop (x + 2) s) ''}'' = Some y \<Longrightarrow>
   expand_loop getenv parts s =
     expand_loop getenv (parts @ [take x s] @ [substitute getenv (take y (drop (x + 2) s))])
       (drop (y + 1) (drop (x + 2) s))"
  by (subst expand_loop.simps) (simp add: substitute_def Let_def split: option.splits)

lemma expand_loop_parts:
  "expand_loop getenv parts s = concat parts @ expand_loop getenv [] s"
proof (induction "length s" arbitrary: s parts rule: less_induct)
  case less
  show ?case
  proof (cases "Index s ''${''")
    case None
    then show ?thesis by (simp add: expand_loop_none)
  next
    case (Some x)
    note b = Index_bound [OF Some]
    show ?thesis
    proof (cases "x + 2 = length s")
      case True
      with Some show ?thesis by (simp add: expand_loop_end)
    next
      case ne: False
      show ?thesis
      proof (cases "s ! (x + 2) = CHR ''$''")
        case True
        have l: "length (drop (x + 3) s) < length s" using b by simp
        show ?thesis
          unfolding expand_loop_escape [OF Some ne True]
          using less [OF l, of "parts @ [take (x + 2) s]"] less [OF l, of "[take (x + 2) s]"]
          by simp
      next
        case False
        show ?thesis
        proof (cases "Index (drop (x + 2) s) ''}''")
          case None
          then show ?thesis by (simp add: expand_loop_open [OF Some ne False])
        next
          case y: (Some y)
          have l: "length (drop (y + 1) (drop (x + 2) s)) < length s" using b by simp
          show ?thesis
            unfolding expand_loop_subst [OF Some ne False y]
            using less [OF l, of "parts @ [take x s] @ [substitute getenv (take y (drop (x + 2) s))]"]
              less [OF l, of "[take x s] @ [substitute getenv (take y (drop (x + 2) s))]"]
            by simp
        qed
      qed
    qed
  qed
qed

lemma Index_append_marker:
  "Index p ''${'' = None \<Longrightarrow> Index (p @ ''${'' @ r) ''${'' = Some (length p)"
proof (induction p)
  case Nil
  show ?case by simp
next
  case (Cons c p)
  from Cons.prems have np: "\<not> prefix ''${'' (c # p)" and n: "Index p ''${'' = None"
    by (auto split: if_splits)
  have "\<not> prefix ''${'' (c # p @ ''${'' @ r)"
    using np by (cases p) auto
  with Cons.IH [OF n] show ?case by simp
qed

lemma Index_append_char:
  "Index p [c] = None \<Longrightarrow> Index (p @ c # r) [c] = Some (length p)"
  by (induction p) (auto split: if_splits)

lemma expand_plain: "Index s ''${'' = None \<Longrightarrow> expand getenv s = s"
  by (simp add: expand_def expand_loop_none)

lemma expand_escape:
  assumes "Index p ''${'' = None"
  shows "expand getenv (p @ ''${$'' @ r) = p @ ''${'' @ expand getenv r"
proof -
  let ?s = "p @ ''${$'' @ r"
  have i: "Index ?s ''${'' = Some (length p)"
    using Index_append_marker [OF assms, of "CHR ''$'' # r"] by simp
  have "expand_loop getenv [] ?s = expand_loop getenv ([] @ [take (length p + 2) ?s]) (drop (length p + 3) ?s)"
    by (rule expand_loop_escape [OF i]) (simp_all add: nth_append)
  also have "\<dots> = expand_loop getenv [p @ ''${''] r" by simp
  also have "\<dots> = p @ ''${'' @ expand_loop getenv [] r"
    by (subst expand_loop_parts) simp
  finally show ?thesis by (simp add: expand_def)
qed

lemma expand_unclosed:
  assumes "Index p ''${'' = None" and "Index r ''}'' = None" and "r = [] \<or> hd r \<noteq> CHR ''$''"
  shows "expand getenv (p @ ''${'' @ r) = p @ ''${'' @ r"
proof (cases r)
  case Nil
  have "Index (p @ ''${'') ''${'' = Some (length p)"
    using Index_append_marker [OF assms(1), of "[]"] by simp
  then have "expand_loop getenv [] (p @ ''${'') = concat [] @ (p @ ''${'')"
    by (rule expand_loop_end) simp
  with Nil show ?thesis by (simp add: expand_def)
next
  case (Cons c r')
  let ?s = "p @ ''${'' @ r"
  have i: "Index ?s ''${'' = Some (length p)"
    by (rule Index_append_marker [OF assms(1)])
  have "expand_loop getenv [] ?s = concat [] @ take (length p) ?s @ ''${'' @ drop (length p + 2) ?s"
    using assms(2,3) Cons by (intro expand_loop_open [OF i]) (simp_all add: nth_append)
  then show ?thesis by (simp add: expand_def)
qed

lemma expand_braces:
  assumes "Index p ''${'' = None" and "Index body ''}'' = None"
    and "body = [] \<or> hd body \<noteq> CHR ''$''"
  shows "expand getenv (p @ ''${'' @ body @ ''}'' @ r) = p @ substitute getenv body @ expand getenv r"
proof -
  let ?s = "p @ ''${'' @ body @ ''}'' @ r"
  have i: "Index ?s ''${'' = Some (length p)"
    by (rule Index_append_marker [OF assms(1)])
  have c: "?s ! (length p + 2) \<noteq> CHR ''$''"
    using assms(3) by (cases body) (simp_all add: nth_append)
  have y: "Index (drop (length p + 2) ?s) ''}'' = Some (length body)"
    using Index_append_char [OF assms(2), of r] by simp
  have "expand_loop getenv [] ?s =
      expand_loop getenv ([] @ [take (length p) ?s] @
        [substitute getenv (take (length body) (drop (length p + 2) ?s))])
        (drop (length body + 1) (drop (length p + 2) ?s))"
    by (rule expand_loop_subst [OF i _ c y]) simp
  also have "\<dots> = expand_loop getenv [p, substitute getenv body] r" by simp
  also have "\<dots> = p @ substitute getenv body @ expand_loop getenv [] r"
    by (subst expand_loop_parts) simp
  finally show ?thesis by (simp add: expand_def)
qed

text \<open>
  Claim C3.  \<open>expand\<close> is one pass from left to right.  Text without \<open>${\<close> is
  returned as it is.  At the first \<open>${\<close>: when a \<open>$\<close> follows, the text up to and
  including \<open>${\<close> is emitted and scanning resumes after that \<open>$\<close>; when no
  \<open>}\<close> follows, the remainder is emitted verbatim; otherwise the text between the braces
  is split at its first \<open>:-\<close> into a name and a default, the value of the name in the
  environment is emitted when it is not empty and the default otherwise, and scanning
  resumes after the \<open>}\<close>, so that the substituted text is never expanded again.  The
  three examples of the specification follow.
\<close>

theorem expand_single_pass:
  "(Index s ''${'' = None \<longrightarrow> expand getenv s = s) \<and>
   (Index p ''${'' = None \<longrightarrow>
      expand getenv (p @ ''${$'' @ r) = p @ ''${'' @ expand getenv r) \<and>
   (Index p ''${'' = None \<and> Index r ''}'' = None \<and> (r = [] \<or> hd r \<noteq> CHR ''$'') \<longrightarrow>
      expand getenv (p @ ''${'' @ r) = p @ ''${'' @ r) \<and>
   (Index p ''${'' = None \<and> Index body ''}'' = None \<and> (body = [] \<or> hd body \<noteq> CHR ''$'') \<longrightarrow>
      expand getenv (p @ ''${'' @ body @ ''}'' @ r) =
        p @ (case Index body '':-'' of
               None \<Rightarrow> getenv body
             | Some n \<Rightarrow> if getenv (take n body) \<noteq> '''' then getenv (take n body)
                         else drop (n + 2) body)
          @ expand getenv r) \<and>
   (getenv ''V1'' = ''value1'' \<longrightarrow> expand getenv ''${V1}'' = ''value1'') \<and>
   (getenv ''V3'' = '''' \<longrightarrow> expand getenv ''${V3:-missing}'' = ''missing'') \<and>
   expand getenv ''${${abc'' = ''${{abc''"
proof (intro conjI impI)
  assume "Index s ''${'' = None"
  then show "expand getenv s = s" by (rule expand_plain)
next
  assume "Index p ''${'' = None"
  then show "expand getenv (p @ ''${$'' @ r) = p @ ''${'' @ expand getenv r"
    by (rule expand_escape)
next
  assume "Index p ''${'' = None \<and> Index r ''}'' = None \<and> (r = [] \<or> hd r \<noteq> CHR ''$'')"
  then show "expand getenv (p @ ''${'' @ r) = p @ ''${'' @ r"
    using expand_unclosed [of p r getenv] by blast
next
  assume "Index p ''${'' = None \<and> Index body ''}'' = None \<and> (body = [] \<or> hd body \<noteq> CHR ''$'')"
  then have "expand getenv (p @ ''${'' @ body @ ''}'' @ r) = p @ substitute getenv body @ expand getenv r"
    using expand_braces [of p body getenv r] by blast
  then show "expand getenv (p @ ''${'' @ body @ ''}'' @ r) =
        p @ (case Index body '':-'' of
               None \<Rightarrow> getenv body
             | Some n \<Rightarrow> if getenv (take n body) \<noteq> '''' then getenv (take n body)
                         else drop (n + 2) body)
          @ expand getenv r"
    by (simp add: substitute_def)
next
  assume v: "getenv ''V1'' = ''value1''"
  have "expand getenv ([] @ ''${'' @ ''V1'' @ ''}'' @ []) = [] @ substitute getenv ''V1'' @ expand getenv []"
    by (rule expand_braces) simp_all
  with v show "expand getenv ''${V1}'' = ''value1''"
    by (simp add: substitute_def expand_plain)
next
  assume v: "getenv ''V3'' = ''''"
  have "expand getenv ([] @ ''${'' @ ''V3:-missing'' @ ''}'' @ []) =
      [] @ substitute getenv ''V3:-missing'' @ expand getenv []"
    by (rule expand_braces) simp_all
  with v show "expand getenv ''${V3:-missing}'' = ''missing''"
    by (simp add: substitute_def expand_plain)
next
  have "expand getenv ([] @ ''${$'' @ ''{abc'') = [] @ ''${'' @ expand getenv ''{abc''"
    by (rule expand_escape) simp
  then show "expand getenv ''${${abc'' = ''${{abc''"
    by (simp add: expand_plain)
qed

theorem expand_single_pass_witness:
  "Index ''abc'' ''${'' = None \<and> expand E ''abc'' = ''abc'' \<and>
   Index ''x$'' ''${'' = None \<and> expand E ''x$${$'' = ''x$${'' \<and>
   Index [] ''}'' = None \<and> expand E ''x$${'' = ''x$${'' \<and>
   Index ''V3:-d'' ''}'' = None \<and> expand E ''x$${V3:-d}'' = ''x$d'' \<and>
   E ''V1'' = ''value1'' \<and> expand E ''${V1}'' = ''value1'' \<and>
   E ''V3'' = [] \<and> expand E ''${V3:-missing}'' = ''missing''"
  using expand_single_pass [of "''abc''" E "''x$''" "[]" "''V3:-d''"]
    expand_single_pass [of "[]" E "[]" "[]" "[]"]
  by (simp add: E_def)


section \<open>The paths of \<open>Set\<close>\<close>

lemma Set_decode_path:
  assumes "(opt = None \<and> f_opt f \<noteq> None) \<or> (\<exists>ot. opt = Some ot \<and> Seen ot)"
    and "expand getenv value = v" and "v \<noteq> []" and "v \<noteq> ''?''" and "v \<noteq> rescanFlags"
    and "p = (if hd v = CHR ''?'' then tl v else v)"
    and "readFile p = Inr data" and "TrimSpace data \<noteq> []"
    and "Decoder f = Some dec" and "dec (TrimSpace data) = Inr t"
  shows "Set getenv readFile f w value opt =
    (case apply_flags p (f\<lparr>f_path := p, f_m := Some (mergemap (f_m f) (Some t))\<rparr>)
            (w\<lparr>reads := reads w @ [p]\<rparr>) of
       (err, w') \<Rightarrow> (Returns err, f\<lparr>f_path := p, f_m := Some (mergemap (f_m f) (Some t))\<rparr>, w'))"
  using assms by (auto simp: Set_def Let_def split: prod.splits)

lemma Set_rescan_path:
  assumes "(opt = None \<and> f_opt f \<noteq> None) \<or> (\<exists>ot. opt = Some ot \<and> Seen ot)"
    and "expand getenv value = rescanFlags"
  shows "Set getenv readFile f w value opt =
    (case apply_flags (f_path f) f w of (err, w') \<Rightarrow> (Returns err, f, w'))"
  using assms by (auto simp: Set_def Let_def rescanFlags_def split: prod.splits)


section \<open>The option check of \<open>Set\<close>\<close>

text \<open>
  Claim C9.  For every \<open>Flags\<close> value, every string and every non-nil option that has not
  been seen, \<open>Set\<close> returns nil and changes nothing: the \<open>Flags\<close> (its path, its
  accumulated tree and its \<open>Sets\<close>) and the world (every bound option, and the log of the
  files read) are returned as they were.
\<close>

theorem Set_unseen_option_noop:
  "\<not> Seen ot \<Longrightarrow> Set getenv readFile f w value (Some ot) = (Returns None, f, w)"
  by (simp add: Set_def Let_def)

theorem Set_unseen_option_noop_witness:
  "\<not> Seen unseenOption \<and>
   Set noEnv noFiles someFlags someWorld ''flags'' (Some unseenOption) =
     (Returns None, someFlags, someWorld)"
  using Set_unseen_option_noop [of unseenOption noEnv noFiles someFlags someWorld "''flags''"]
  by (simp add: unseenOption_def)

lemma expand_rescanFlags: "expand getenv rescanFlags = rescanFlags"
  by (simp add: expand_plain rescanFlags_def)

lemma apply_sets_no_tree:
  "apply_sets value [([], a)] [] store = (None, [], store)"
proof -
  have "VisitAll value None [] ots = (None, [], ots)" for ots
    by (induction ots) (simp_all add: visit_def Let_def)
  then show ?thesis by simp
qed

text \<open>
  Claim C8, as stated, fails.  The path \<open>flags\<close> cannot be read, yet \<open>Set\<close> returns nil
  without reading it when it is given an option that has not been seen, and returns
  the error of an unregistered \<open>Flags\<close>, again without reading, when the option is nil
  and the \<open>Flags\<close> has none.  The value of \<open>rescanFlags\<close> is not read as a path either.
\<close>

theorem Set_classification_counterexample:
  "noFiles ''flags'' = Inl (ReadFileError ''flags'') \<and>
   Set noEnv noFiles someFlags someWorld ''flags'' (Some unseenOption) =
     (Returns None, someFlags, someWorld) \<and>
   Set noEnv noFiles zeroFlags someWorld ''flags'' None =
     (Returns (Some (ErrorsNew ''options.Flags: not registered as an option'')),
      zeroFlags, someWorld) \<and>
   noFiles rescanFlags = Inl (ReadFileError rescanFlags) \<and>
   Set noEnv noFiles someFlags someWorld rescanFlags None = (Returns None, someFlags, someWorld)"
proof -
  have e: "expand noEnv ''flags'' = ''flags''" by (simp add: expand_plain)
  have 1: "Set noEnv noFiles someFlags someWorld ''flags'' (Some unseenOption) =
      (Returns None, someFlags, someWorld)"
    by (simp add: Set_def Let_def e unseenOption_def)
  have 2: "Set noEnv noFiles zeroFlags someWorld ''flags'' None =
      (Returns (Some (ErrorsNew ''options.Flags: not registered as an option'')),
       zeroFlags, someWorld)"
    by (simp add: Set_def Let_def e zeroFlags_def)
  have "apply_flags [] someFlags someWorld = (None, someWorld)"
    by (simp add: apply_flags_def someFlags_def mergemap_def apply_sets_no_tree
        unrecognized_def unknown_names_def del: apply_sets.simps)
  then have 3: "Set noEnv noFiles someFlags someWorld rescanFlags None =
      (Returns None, someFlags, someWorld)"
    by (simp add: Set_def Let_def expand_rescanFlags) (simp add: rescanFlags_def someFlags_def)
  show ?thesis using 1 2 3 by (simp add: noFiles_def)
qed

text \<open>
  Claim C8, amended.  A value that expands to the empty string or to \<open>?\<close> makes \<open>Set\<close>
  return nil without reading a file or changing any state.  For the other values, when
  the call passes the option check (the option is nil and the \<open>Flags\<close> is registered, or
  the option has been seen): a \<open>?\<close> followed by a path reads the file and returns nil
  when the file cannot be read; a plain path other than the value of \<open>rescanFlags\<close>
  reads the file and returns the read failure as the error.  In both cases nothing but
  the log of the files read changes.
\<close>

theorem Set_classifies_value:
  "((expand getenv value = [] \<or> expand getenv value = ''?'') \<longrightarrow>
      Set getenv readFile f w value opt = (Returns None, f, w)) \<and>
   (((opt = None \<and> f_opt f \<noteq> None) \<or> (\<exists>ot. opt = Some ot \<and> Seen ot)) \<and>
    expand getenv value = CHR ''?'' # p \<and> p \<noteq> [] \<and> readFile p = Inl err \<longrightarrow>
      Set getenv readFile f w value opt = (Returns None, f, w\<lparr>reads := reads w @ [p]\<rparr>)) \<and>
   (((opt = None \<and> f_opt f \<noteq> None) \<or> (\<exists>ot. opt = Some ot \<and> Seen ot)) \<and>
    expand getenv value = p \<and> p \<noteq> [] \<and> hd p \<noteq> CHR ''?'' \<and> p \<noteq> rescanFlags \<and>
    readFile p = Inl err \<longrightarrow>
      Set getenv readFile f w value opt = (Returns (Some err), f, w\<lparr>reads := reads w @ [p]\<rparr>))"
  by (auto simp: Set_def Let_def rescanFlags_def)

theorem Set_classifies_value_witness:
  "expand noEnv [] = [] \<and>
   Set noEnv noFiles someFlags someWorld [] None = (Returns None, someFlags, someWorld) \<and>
   f_opt someFlags \<noteq> None \<and> expand noEnv ''?flags'' = ''?flags'' \<and>
   noFiles ''flags'' = Inl (ReadFileError ''flags'') \<and>
   Set noEnv noFiles someFlags someWorld ''?flags'' None =
     (Returns None, someFlags, someWorld\<lparr>reads := reads someWorld @ [''flags'']\<rparr>) \<and>
   expand noEnv ''flags'' = ''flags'' \<and> ''flags'' \<noteq> rescanFlags \<and>
   Set noEnv noFiles someFlags someWorld ''flags'' None =
     (Returns (Some (ReadFileError ''flags'')), someFlags,
      someWorld\<lparr>reads := reads someWorld @ [''flags'']\<rparr>)"
  using Set_classifies_value [of noEnv "[]" noFiles someFlags someWorld None "''flags''"
      "ReadFileError ''flags''"]
    Set_classifies_value [of noEnv "''?flags''" noFiles someFlags someWorld None "''flags''"
      "ReadFileError ''flags''"]
    Set_classifies_value [of noEnv "''flags''" noFiles someFlags someWorld None "''flags''"
      "ReadFileError ''flags''"]
  by (simp add: expand_plain noFiles_def someFlags_def rescanFlags_def)


section \<open>Options that the command line has set\<close>

lemma may_change_refl: "may_change ot ot"
  by (simp add: may_change_def)

lemma may_change_trans: "may_change a b \<Longrightarrow> may_change b c \<Longrightarrow> may_change a c"
  by (auto simp: may_change_def)

lemma visit_may_change: "visit value err m ot = (err', m', ot') \<Longrightarrow> may_change ot ot'"
  by (auto simp: visit_def Let_def may_change_def split: if_splits option.splits val.splits prod.splits)

lemma VisitAll_may_change:
  "VisitAll value err m ots = (err', m', ots') \<Longrightarrow> list_all2 may_change ots ots'"
proof (induction ots arbitrary: err m err' m' ots')
  case Nil
  then show ?case by simp
next
  case (Cons ot ots)
  obtain e1 m1 ot1 where v: "visit value err m ot = (e1, m1, ot1)" by (cases "visit value err m ot")
  obtain e2 m2 ots2 where r: "VisitAll value e1 m1 ots = (e2, m2, ots2)"
    by (cases "VisitAll value e1 m1 ots")
  from Cons.prems v r have "ots' = ot1 # ots2" by simp
  with visit_may_change [OF v] Cons.IH [OF r] show ?case by simp
qed

lemma list_all2_may_change_trans:
  "list_all2 may_change xs ys \<Longrightarrow> list_all2 may_change ys zs \<Longrightarrow> list_all2 may_change xs zs"
  by (rule list_all2_trans [of may_change may_change may_change]) (auto intro: may_change_trans)

lemma list_all2_may_change_refl: "list_all2 may_change xs xs"
  by (simp add: list_all2_refl may_change_refl)

lemma apply_sets_Cons:
  "apply_sets pth ((name, b) # sets) m store =
     (if name \<noteq> [] \<and> (\<forall>sm. map_of m name \<noteq> Some (VMap sm)) then apply_sets pth sets m store
      else case VisitAll pth None (working_map name m) (store b) of
        (e1, m1, ots1) \<Rightarrow>
          if e1 \<noteq> None then (e1, put_back name m1 m, store(b := ots1))
          else apply_sets pth sets (put_back name m1 m) (store(b := ots1)))"
  by (auto simp: Let_def working_map_def put_back_def split: option.splits val.splits prod.splits)

lemma apply_sets_may_change:
  "apply_sets pth sets m store = (err, m', store') \<Longrightarrow>
   list_all2 may_change (store a) (store' a)"
proof (induction sets arbitrary: m store)
  case Nil
  then show ?case by (simp add: list_all2_may_change_refl)
next
  case (Cons s sets)
  obtain name b where s: "s = (name, b)" by (cases s)
  show ?case
  proof (cases "name \<noteq> [] \<and> (\<forall>sm. map_of m name \<noteq> Some (VMap sm))")
    case True
    with Cons.prems s have "apply_sets pth sets m store = (err, m', store')"
      by (simp add: apply_sets_Cons del: apply_sets.simps)
    then show ?thesis by (rule Cons.IH)
  next
    case False
    obtain e1 m1 ots1 where v: "VisitAll pth None (working_map name m) (store b) = (e1, m1, ots1)"
      by (cases "VisitAll pth None (working_map name m) (store b)")
    have step: "list_all2 may_change (store a) ((store(b := ots1)) a)"
      using VisitAll_may_change [OF v] by (simp add: list_all2_may_change_refl)
    from Cons.prems s False v
    have eq: "(if e1 \<noteq> None then (e1, put_back name m1 m, store(b := ots1))
          else apply_sets pth sets (put_back name m1 m) (store(b := ots1))) = (err, m', store')"
      by (simp add: apply_sets_Cons del: apply_sets.simps)
    show ?thesis
    proof (cases "e1 = None")
      case True
      with eq have "apply_sets pth sets (put_back name m1 m) (store(b := ots1)) = (err, m', store')"
        by simp
      then have "list_all2 may_change ((store(b := ots1)) a) (store' a)" by (rule Cons.IH)
      with step show ?thesis by (rule list_all2_may_change_trans)
    next
      case False
      with eq have "store' = store(b := ots1)" by auto
      with step show ?thesis by simp
    qed
  qed
qed

lemma apply_flags_may_change:
  "apply_flags pth f w = (err, w') \<Longrightarrow>
   list_all2 may_change (optionSets w a) (optionSets w' a) \<and> reads w' = reads w"
  by (auto simp: apply_flags_def Let_def split: prod.splits if_splits dest: apply_sets_may_change)

lemma Set_may_change:
  "Set getenv readFile f w pth opt = (r, f', w') \<Longrightarrow>
   list_all2 may_change (optionSets w a) (optionSets w' a)"
  by (auto simp: Set_def Let_def list_all2_may_change_refl
      split: if_splits sum.splits option.splits prod.splits dest: apply_flags_may_change)

lemma may_change_nth:
  assumes "list_all2 may_change ots ots'" and "i < length ots"
  shows "Seen (ots' ! i) = Seen (ots ! i)" and "Seen (ots ! i) \<Longrightarrow> ots' ! i = ots ! i"
  using list_all2_nthD [OF assms] by (auto simp: may_change_def)

text \<open>
  Claim C1.  The command line supplies the option at position \<open>i\<close> of the set at address
  \<open>a\<close> with the value \<open>v\<close>.  Whether \<open>Set\<close> runs after that or before it, whatever its
  arguments and whatever the overlay holds, the value bound to the option in the end is
  \<open>v\<close>.  The reason is the third statement: \<open>Set\<close> leaves an option that has been seen
  when it runs as it is.
\<close>

theorem command_line_value_wins:
  assumes "i < length (optionSets w a)"
  shows "Value (optionSets (snd (snd (Set getenv readFile f (command_line a i v w) pth opt))) a ! i) = v \<and>
    Value (optionSets (command_line a i v (snd (snd (Set getenv readFile f w pth opt)))) a ! i) = v \<and>
    (Seen (optionSets w a ! i) \<longrightarrow>
       optionSets (snd (snd (Set getenv readFile f w pth opt))) a ! i = optionSets w a ! i)"
proof (intro conjI impI)
  let ?w = "command_line a i v w"
  obtain r f' w' where s: "Set getenv readFile f ?w pth opt = (r, f', w')"
    by (cases "Set getenv readFile f ?w pth opt")
  have l: "i < length (optionSets ?w a)" using assms by (simp add: command_line_def)
  have o: "optionSets ?w a ! i = (optionSets w a ! i)\<lparr>Seen := True, Value := v\<rparr>"
    using assms by (simp add: command_line_def)
  have "optionSets w' a ! i = optionSets ?w a ! i"
    using may_change_nth(2) [OF Set_may_change [OF s] l] o by simp
  with o s show "Value (optionSets (snd (snd (Set getenv readFile f ?w pth opt))) a ! i) = v"
    by simp
next
  obtain r f' w' where s: "Set getenv readFile f w pth opt = (r, f', w')"
    by (cases "Set getenv readFile f w pth opt")
  have "length (optionSets w' a) = length (optionSets w a)"
    using Set_may_change [OF s, of a] by (simp add: list_all2_lengthD)
  with assms s
  show "Value (optionSets (command_line a i v (snd (snd (Set getenv readFile f w pth opt)))) a ! i) = v"
    by (simp add: command_line_def)
next
  assume seen: "Seen (optionSets w a ! i)"
  obtain r f' w' where s: "Set getenv readFile f w pth opt = (r, f', w')"
    by (cases "Set getenv readFile f w pth opt")
  from may_change_nth(2) [OF Set_may_change [OF s] assms seen] s
  show "optionSets (snd (snd (Set getenv readFile f w pth opt))) a ! i = optionSets w a ! i"
    by simp
qed

text \<open>The file \<open>flags\<close> sets \<open>name\<close> to \<open>bob\<close>; the command line sets it to \<open>alice\<close>.\<close>

theorem command_line_value_wins_witness:
  "0 < length (optionSets someWorld 0) \<and>
   Value (optionSets (snd (snd (Set noEnv flagsFile someFlags
            (command_line 0 0 ''alice'' someWorld) ''flags'' None))) 0 ! 0) = ''alice'' \<and>
   Value (optionSets (command_line 0 0 ''alice''
            (snd (snd (Set noEnv flagsFile someFlags someWorld ''flags'' None)))) 0 ! 0) = ''alice'' \<and>
   Seen (optionSets someWorld 0 ! 1) \<and>
   optionSets (snd (snd (Set noEnv flagsFile someFlags someWorld ''flags'' None))) 0 ! 1 =
     optionSets someWorld 0 ! 1"
  using command_line_value_wins [of 0 someWorld 0 noEnv flagsFile someFlags "''alice''" "''flags''" None]
    command_line_value_wins [of 1 someWorld 0 noEnv flagsFile someFlags "''alice''" "''flags''" None]
  by (simp add: someWorld_def seenOption_def)


section \<open>Merging a decoded mapping into the accumulated tree\<close>

lemma update_fresh: "k \<notin> fst ` set al \<Longrightarrow> AList.update k v al = al @ [(k, v)]"
  by (induction al) auto

lemma dup_wf:
  "wf_tree old \<Longrightarrow> fst ` set new \<inter> fst ` set old = {} \<Longrightarrow> mergemap_entries new old = new @ old"
  "wf_val v \<Longrightarrow> dup v = v"
proof (induction new old and v rule: mergemap_entries_dup.induct)
  case (2 new k v old)
  from "2.prems" have wv: "wf_val v" and wo: "wf_tree old" and kn: "k \<notin> fst ` set new"
    and ko: "k \<notin> fst ` set old" by auto
  have dv: "dup v = v" using "2.IH"(1) wv by simp
  have u: "AList.update k (dup v) new = new @ [(k, v)]" using kn dv by (simp add: update_fresh)
  have "fst ` set (new @ [(k, v)]) \<inter> fst ` set old = {}" using "2.prems"(2) ko by auto
  with "2.IH"(2) wo u show ?case by simp
qed simp_all

text \<open>
  Claim C2: the code does not merge nested mappings.  The comment in \<open>Set\<close> (lines 199
  to 203) says that the merged list of the options seen is kept, so that it can be
  replayed after a subset is registered.  The overlay \<open>A\<close> sets \<open>child.a\<close> and the overlay
  \<open>B\<close> sets \<open>child.b\<close>; both calls of \<open>Set\<close> return no error.  After \<open>A\<close> the accumulated
  tree holds \<open>child.a\<close>; after \<open>B\<close> the nested mapping under \<open>child\<close> is the one of \<open>B\<close>
  alone, and the value of \<open>child.a\<close>, a leaf key present only in \<open>A\<close>, is gone:
  \<open>mergemap\<close> assigns a duplicate of the new nested mapping to \<open>new[k]\<close> and never looks at
  the old value under \<open>k\<close>.
\<close>

theorem Set_merge_drops_nested_key:
  "fst (Set noEnv twoFiles laterFlags someWorld ''A'' None) = Returns None \<and>
   f_m (fst (snd (Set noEnv twoFiles laterFlags someWorld ''A'' None))) =
     Some [(''child'', VMap [(''a'', VString ''1'')])] \<and>
   fst (Set noEnv twoFiles (fst (snd (Set noEnv twoFiles laterFlags someWorld ''A'' None)))
       someWorld ''B'' None) = Returns None \<and>
   f_m (fst (snd (Set noEnv twoFiles (fst (snd (Set noEnv twoFiles laterFlags someWorld ''A'' None)))
       someWorld ''B'' None))) =
     Some [(''child'', VMap [(''b'', VString ''2'')])]"
  by code_simp

section \<open>Unknown flags\<close>

lemma apply_flags_error:
  "fst (apply_flags value f w) =
     (if apply_error value f w \<noteq> None then apply_error value f w
      else if IgnoreUnknown f then None
      else unrecognized value (leftover value f w))"
  by (simp add: apply_flags_def apply_error_def leftover_def Let_def split: prod.splits)

lemma unrecognized_eq:
  "unrecognized value m =
     (if unknown_names m = [] then None
      else Some (ErrorsNew (Join ((value @ '': unrecognized flags:'') # sort (unknown_names m))
                  (CHR 0x0A # ''    ''))))"
  by (simp add: unrecognized_def Let_def)

lemma mem_unknown_names:
  "x \<in> set (unknown_names m) \<longleftrightarrow>
     (\<exists>k v. (k, v) \<in> set m \<and> (\<forall>sm. v \<noteq> VMap sm) \<and> x = ''--'' @ k) \<or>
     (\<exists>k sm sk sv. (k, VMap sm) \<in> set m \<and> (sk, sv) \<in> set sm \<and> x = ''--'' @ k @ ''.'' @ sk)"
proof -
  define N where "N = (\<lambda>(k::string) v. case v of
      VMap sm \<Rightarrow> map (\<lambda>(sk, sv::val). ''--'' @ k @ ''.'' @ sk) sm | _ \<Rightarrow> [''--'' @ k])"
  have "unknown_names m = concat (map (\<lambda>(k, v). N k v) m)"
    unfolding unknown_names_def N_def by (rule refl)
  then have mem: "x \<in> set (unknown_names m) \<longleftrightarrow> (\<exists>k v. (k, v) \<in> set m \<and> x \<in> set (N k v))"
    by auto
  have nmem: "x \<in> set (N k v) \<longleftrightarrow>
      ((\<forall>sm. v \<noteq> VMap sm) \<and> x = ''--'' @ k) \<or>
      (\<exists>sm sk sv. v = VMap sm \<and> (sk, sv) \<in> set sm \<and> x = ''--'' @ k @ ''.'' @ sk)" for k v
    by (cases v) (auto simp: N_def)
  show ?thesis unfolding mem nmem by blast
qed

lemma set_unknown_names:
  "set (unknown_names m) =
     {''--'' @ k |k v. (k, v) \<in> set m \<and> (\<forall>sm. v \<noteq> VMap sm)} \<union>
     {''--'' @ k @ ''.'' @ sk |k sm sk sv. (k, VMap sm) \<in> set m \<and> (sk, sv) \<in> set sm}"
  unfolding set_eq_iff mem_unknown_names by blast

text \<open>
  Claim C4.  \<open>Set\<close> has read the file \<open>p\<close>, decoded it and merged it, and the loop over
  the bound sets has ended without an error, leaving the working map \<open>leftover\<close>.  Then
  \<open>Set\<close> returns nil when \<open>IgnoreUnknown\<close> is set or no name is left, and otherwise one
  error, whose text is the header followed by the names, sorted.  The names are \<open>--k\<close>
  for every key \<open>k\<close> left at the top level with a value that is not a mapping, and
  \<open>--k.sk\<close> for every key \<open>sk\<close> of a nested mapping left under \<open>k\<close>.
\<close>

theorem Set_reports_unknown_flags:
  assumes "(opt = None \<and> f_opt f \<noteq> None) \<or> (\<exists>ot. opt = Some ot \<and> Seen ot)"
    and "expand getenv pth = v" and "v \<noteq> []" and "v \<noteq> ''?''" and "v \<noteq> rescanFlags"
    and "p = (if hd v = CHR ''?'' then tl v else v)"
    and "readFile p = Inr data" and "TrimSpace data \<noteq> []"
    and "Decoder f = Some dec" and "dec (TrimSpace data) = Inr t"
    and "f' = f\<lparr>f_path := p, f_m := Some (mergemap (f_m f) (Some t))\<rparr>"
    and "w' = w\<lparr>reads := reads w @ [p]\<rparr>"
    and "apply_error p f' w' = None"
    and "names = unknown_names (leftover p f' w')"
  shows "fst (Set getenv readFile f w pth opt) =
      Returns (if IgnoreUnknown f \<or> names = [] then None
               else Some (ErrorsNew (Join ((p @ '': unrecognized flags:'') # sort names)
                           (CHR 0x0A # ''    '')))) \<and>
    sorted (sort names) \<and>
    set (sort names) =
      {''--'' @ k |k x. (k, x) \<in> set (leftover p f' w') \<and> (\<forall>sm. x \<noteq> VMap sm)} \<union>
      {''--'' @ k @ ''.'' @ sk |k sm sk sv.
         (k, VMap sm) \<in> set (leftover p f' w') \<and> (sk, sv) \<in> set sm}"
proof -
  have "Set getenv readFile f w pth opt =
    (case apply_flags p (f\<lparr>f_path := p, f_m := Some (mergemap (f_m f) (Some t))\<rparr>)
            (w\<lparr>reads := reads w @ [p]\<rparr>) of
       (err, w') \<Rightarrow> (Returns err, f\<lparr>f_path := p, f_m := Some (mergemap (f_m f) (Some t))\<rparr>, w'))"
    using assms(1-10) by (rule Set_decode_path)
  then have "fst (Set getenv readFile f w pth opt) = Returns (fst (apply_flags p f' w'))"
    unfolding assms(11,12) by (simp split: prod.splits)
  moreover have "fst (apply_flags p f' w') =
      (if IgnoreUnknown f \<or> names = [] then None
       else Some (ErrorsNew (Join ((p @ '': unrecognized flags:'') # sort names)
                   (CHR 0x0A # ''    ''))))"
    using assms(13) by (simp add: apply_flags_error unrecognized_eq assms(11,14))
  ultimately show ?thesis by (simp add: assms(14) set_unknown_names)
qed


theorem Set_reports_unknown_flags_witness:
  "f_opt someFlags \<noteq> None \<and> expand noEnv ''flags'' = ''flags'' \<and> ''flags'' \<noteq> rescanFlags \<and>
   flagsFile ''flags'' = Inr (''name = bob'' @ [CHR 0x0A] @ ''zz = 1'' @ [CHR 0x0A] @ ''aa.x = 2'') \<and>
   Decoder someFlags = Some SimpleDecoder \<and>
   SimpleDecoder (''name = bob'' @ [CHR 0x0A] @ ''zz = 1'' @ [CHR 0x0A] @ ''aa.x = 2'') =
     Inr [(''name'', VString ''bob''), (''zz'', VString ''1''), (''aa'', VMap [(''x'', VString ''2'')])] \<and>
   apply_error ''flags''
     (someFlags\<lparr>f_path := ''flags'', f_m := Some (mergemap (f_m someFlags)
        (Some [(''name'', VString ''bob''), (''zz'', VString ''1''), (''aa'', VMap [(''x'', VString ''2'')])]))\<rparr>)
     (someWorld\<lparr>reads := reads someWorld @ [''flags'']\<rparr>) = None \<and>
   fst (Set noEnv flagsFile someFlags someWorld ''flags'' None) =
     Returns (Some (ErrorsNew (''flags: unrecognized flags:'' @ [CHR 0x0A] @ ''    --aa.x'' @
       [CHR 0x0A] @ ''    --zz'')))"
proof -
  let ?data = "''name = bob'' @ [CHR 0x0A] @ ''zz = 1'' @ [CHR 0x0A] @ ''aa.x = 2''"
  let ?t = "[(''name'', VString ''bob''), (''zz'', VString ''1''), (''aa'', VMap [(''x'', VString ''2'')])]"
  let ?f = "someFlags\<lparr>f_path := ''flags'', f_m := Some (mergemap (f_m someFlags) (Some ?t))\<rparr>"
  let ?w = "someWorld\<lparr>reads := reads someWorld @ [''flags'']\<rparr>"
  have g: "(None = None \<and> f_opt someFlags \<noteq> None) \<or> (\<exists>ot. None = Some ot \<and> Seen ot)"
    by (simp add: someFlags_def)
  have e: "expand noEnv ''flags'' = ''flags''" by (simp add: expand_plain)
  have n: "''flags'' \<noteq> []" "''flags'' \<noteq> ''?''" "''flags'' \<noteq> rescanFlags"
    by (simp_all add: rescanFlags_def)
  have p: "''flags'' = (if hd ''flags'' = CHR ''?'' then tl ''flags'' else ''flags'')" by simp
  have rd: "flagsFile ''flags'' = Inr ?data" by (simp add: flagsFile_def)
  have t: "TrimSpace ?data \<noteq> []" by code_simp
  have dc: "Decoder someFlags = Some SimpleDecoder" by (simp add: someFlags_def)
  have d: "SimpleDecoder (TrimSpace ?data) = Inr ?t" by code_simp
  have d': "SimpleDecoder ?data = Inr ?t" by code_simp
  have a: "apply_error ''flags'' ?f ?w = None" by code_simp
  have l: "[''--zz'', ''--aa.x''] = unknown_names (leftover ''flags'' ?f ?w)" by code_simp
  have s: "sort [''--zz'', ''--aa.x''] = [''--aa.x'', ''--zz'']" by code_simp
  have i: "\<not> IgnoreUnknown someFlags" by (simp add: someFlags_def)
  note th = Set_reports_unknown_flags [where opt = None and f = someFlags and getenv = noEnv
      and v = "''flags''" and p = "''flags''" and readFile = flagsFile and dec = SimpleDecoder
      and f' = ?f and w' = ?w and names = "[''--zz'', ''--aa.x'']",
      OF g e n p rd t dc d refl refl a l]
  from th have "fst (Set noEnv flagsFile someFlags someWorld ''flags'' None) =
      Returns (Some (ErrorsNew (Join ((''flags'' @ '': unrecognized flags:'') # [''--aa.x'', ''--zz''])
                           (CHR 0x0A # ''    ''))))"
    unfolding s using i by simp
  then show ?thesis using g e n rd dc d' a by simp
qed


section \<open>\<open>register\<close> and its entry points (package \<open>flags\<close>)\<close>

text \<open>
  Claim C5.  The documentation of \<open>Validate\<close> and \<open>RegisterSet\<close> promises an error for an
  invalid getopt tag and for a field of an unsupported type.  \<open>register\<close> panics in both
  cases, and so do the two validating entry points: here \<open>Validate\<close> on a pointer to a
  struct whose field has the tag \<open>the_name\<close>, and \<open>RegisterSet\<close> on one whose field has
  an unsupported type.
\<close>

theorem register_panics:
  "Validate (PtrToStruct [\<lparr>Name = ''Name'', Tag = ''the_name'', CanSet = True, Type = TString\<rparr>]) =
     Panic (PanicTag (MissingOptionName ''the_name'')) \<and>
   RegisterSet [] (PtrToStruct [\<lparr>Name = ''Lazy'', Tag = [], CanSet = True, Type = TUnsupported\<rparr>]) [] =
     Panic PanicInvalidOptionType"
  by code_simp

text \<open>More generally, \<open>register\<close> never returns an error for a pointer to a struct: a
  configuration error in a field can only come out as a panic.\<close>

lemma register_fields_no_error: "register_fields flds fset \<noteq> Return (Some err, fset')"
  by (induction flds fset rule: register_fields.induct)
    (auto simp: Let_def split: sum.splits option.splits)

lemma register_pointer_no_error: "register name (PtrToStruct flds) fset \<noteq> Return (Some err, fset')"
  by (simp add: register_def register_fields_no_error)


section \<open>The simple decoder\<close>

text \<open>
  Claim C7.  A key used as a scalar and then as a nested table makes \<open>SimpleDecoder\<close>
  return an error.  In the other order it does not: the scalar silently replaces the
  nested table and a mapping is returned, although the test \<open>field conflict2\<close> of the
  repository expects the error \<open>conflict on field sub\<close> for this input.
\<close>

theorem SimpleDecoder_conflict_orders:
  "SimpleDecoder (''sub = other'' @ [CHR 0x0A] @ ''sub.key = value'') =
     Inl (ConflictOnField ''sub.key'' ''sub'') \<and>
   SimpleDecoder (''sub.key = value'' @ [CHR 0x0A] @ ''sub = other'') =
     Inr [(''sub'', VString ''other'')]"
  by code_simp


section \<open>The terminator of a tag\<close>

text \<open>
  White space at the two ends of a string.  The encodings of \<open>whiteSpace\<close> decode to
  the white-space runes.  No encoding of a white-space rune starts another one, and only the first byte of an encoding is not a continuation byte; so the
  white space at the end of a string does not depend on what stands before a byte that
  is not a continuation byte.
\<close>

lemma whiteSpace_runes:
  "map DecodeRune whiteSpace =
     [(0x09, 1), (0x0A, 1), (0x0B, 1), (0x0C, 1), (0x0D, 1), (0x20, 1), (0x85, 2), (0xA0, 2),
      (0x1680, 3), (0x2000, 3), (0x2001, 3), (0x2002, 3), (0x2003, 3), (0x2004, 3), (0x2005, 3),
      (0x2006, 3), (0x2007, 3), (0x2008, 3), (0x2009, 3), (0x200A, 3), (0x2028, 3), (0x2029, 3),
      (0x202F, 3), (0x205F, 3), (0x3000, 3)]"
  by (simp add: whiteSpace_def DecodeRune_def)

lemma whiteSpace_prefix_free:
  assumes "e \<in> set whiteSpace" and "f \<in> set whiteSpace" and "prefix e f"
  shows "e = f"
proof -
  have "list_all (\<lambda>e. list_all (\<lambda>f. prefix e f \<longrightarrow> e = f) whiteSpace) whiteSpace"
    by code_simp
  with assms show ?thesis by (auto simp: list_all_iff)
qed

lemma whiteSpace_suffix_free:
  assumes "e \<in> set whiteSpace" and "f \<in> set whiteSpace" and "suffix e f"
  shows "e = f"
proof -
  have "list_all (\<lambda>e. list_all (\<lambda>f. suffix e f \<longrightarrow> e = f) whiteSpace) whiteSpace"
    by code_simp
  with assms show ?thesis by (auto simp: list_all_iff)
qed

lemma whiteSpace_bytes:
  assumes "e \<in> set whiteSpace"
  shows "\<not> continuation (hd e)" and "list_all continuation (tl e)"
    and "hd e \<noteq> CHR ''-''" and "last e \<noteq> CHR ''-''"
proof -
  have "list_all (\<lambda>e. \<not> continuation (hd e) \<and> list_all continuation (tl e) \<and>
      hd e \<noteq> CHR ''-'' \<and> last e \<noteq> CHR ''-'') whiteSpace"
    by code_simp
  with assms show "\<not> continuation (hd e)" and "list_all continuation (tl e)"
    and "hd e \<noteq> CHR ''-''" and "last e \<noteq> CHR ''-''"
    by (auto simp: list_all_iff)
qed

lemma asciiSpace_whiteSpace: "asciiSpace c \<Longrightarrow> [c] \<in> set whiteSpace"
  by (auto simp: asciiSpace_def whiteSpace_def)

lemma TrimLeftSpace_fix: "\<forall>e\<in>set whiteSpace. \<not> prefix e s \<Longrightarrow> TrimLeftSpace s = s"
proof -
  assume "\<forall>e\<in>set whiteSpace. \<not> prefix e s"
  then have "find (\<lambda>e. prefix e s) whiteSpace = None" by (simp add: find_None_iff)
  then show ?thesis by (subst TrimLeftSpace.simps) simp
qed

lemma TrimRightSpace_fix: "\<forall>e\<in>set whiteSpace. \<not> suffix e s \<Longrightarrow> TrimRightSpace s = s"
proof -
  assume "\<forall>e\<in>set whiteSpace. \<not> suffix e s"
  then have "find (\<lambda>e. suffix e s) whiteSpace = None" by (simp add: find_None_iff)
  then show ?thesis by (subst TrimRightSpace.simps) simp
qed

lemma TrimLeftSpace_Nil [simp]: "TrimLeftSpace [] = []"
  by (rule TrimLeftSpace_fix) (auto dest: whiteSpace_nonempty)

lemma TrimRightSpace_Nil [simp]: "TrimRightSpace [] = []"
  by (rule TrimRightSpace_fix) (auto dest: whiteSpace_nonempty)

lemma TrimSpace_Nil [simp]: "TrimSpace [] = []"
  by (simp add: TrimSpace_def)

lemma find_whiteSpace_prefix:
  assumes "e \<in> set whiteSpace"
  shows "find (\<lambda>f. prefix f (e @ s)) whiteSpace = Some e"
proof (cases "find (\<lambda>f. prefix f (e @ s)) whiteSpace")
  case None
  with assms show ?thesis by (auto simp: find_None_iff)
next
  case (Some f)
  then have f: "f \<in> set whiteSpace" "prefix f (e @ s)" by (auto simp: find_Some_iff)
  have "prefix e f \<or> prefix f e"
    using prefix_same_cases [of f "e @ s" e] f(2) by auto
  with assms f(1) have "f = e" by (auto dest: whiteSpace_prefix_free)
  with Some show ?thesis by simp
qed

lemma find_whiteSpace_suffix:
  assumes "e \<in> set whiteSpace"
  shows "find (\<lambda>f. suffix f (s @ e)) whiteSpace = Some e"
proof (cases "find (\<lambda>f. suffix f (s @ e)) whiteSpace")
  case None
  have "suffix e (s @ e)" by (rule suffixI) simp
  with None assms show ?thesis by (auto simp: find_None_iff)
next
  case (Some f)
  then have f: "f \<in> set whiteSpace" "suffix f (s @ e)" by (auto simp: find_Some_iff)
  have "suffix e (s @ e)" by (rule suffixI) simp
  with f(2) have "suffix e f \<or> suffix f e" by (auto dest: suffix_same_cases)
  with assms f(1) have "f = e" by (auto dest: whiteSpace_suffix_free)
  with Some show ?thesis by simp
qed

lemma TrimLeftSpace_step: "e \<in> set whiteSpace \<Longrightarrow> TrimLeftSpace (e @ s) = TrimLeftSpace s"
  by (subst TrimLeftSpace.simps) (simp add: find_whiteSpace_prefix)

lemma TrimRightSpace_step: "e \<in> set whiteSpace \<Longrightarrow> TrimRightSpace (s @ e) = TrimRightSpace s"
  by (subst TrimRightSpace.simps) (simp add: find_whiteSpace_suffix)

lemma TrimLeftSpace_separator:
  "list_all asciiSpace sep \<Longrightarrow> TrimLeftSpace (sep @ s) = TrimLeftSpace s"
proof (induction sep)
  case Nil
  show ?case by simp
next
  case (Cons c sep)
  then have "[c] \<in> set whiteSpace" by (simp add: asciiSpace_whiteSpace)
  from TrimLeftSpace_step [OF this, of "sep @ s"] Cons show ?case by simp
qed

lemma TrimLeftSpace_dash: "TrimLeftSpace (CHR ''-'' # s) = CHR ''-'' # s"
proof (rule TrimLeftSpace_fix, rule ballI)
  fix e assume e: "e \<in> set whiteSpace"
  show "\<not> prefix e (CHR ''-'' # s)"
  proof
    assume "prefix e (CHR ''-'' # s)"
    with whiteSpace_nonempty [OF e] have "hd e = CHR ''-''" by (cases e) auto
    with whiteSpace_bytes(3) [OF e] show False by simp
  qed
qed

lemma TrimRightSpace_dash: "TrimRightSpace (s @ ''-'') = s @ ''-''"
proof (rule TrimRightSpace_fix, rule ballI)
  fix e assume e: "e \<in> set whiteSpace"
  show "\<not> suffix e (s @ ''-'')"
  proof
    assume "suffix e (s @ ''-'')"
    then obtain p where "s @ ''-'' = p @ e" by (auto simp: suffix_def)
    with whiteSpace_nonempty [OF e] have "last e = CHR ''-''"
      by (metis last_appendR last_snoc)
    with whiteSpace_bytes(4) [OF e] show False by simp
  qed
qed

lemma TrimRightSpace_prefix: "prefix (TrimRightSpace s) s"
proof (induction s rule: TrimRightSpace.induct)
  case (1 s)
  show ?case
  proof (cases "find (\<lambda>e. suffix e s) whiteSpace")
    case None
    then show ?thesis by (subst TrimRightSpace.simps) simp
  next
    case (Some e)
    have "prefix (TrimRightSpace (take (length s - length e) s)) (take (length s - length e) s)"
      using Some by (rule "1.IH")
    also have "prefix (take (length s - length e) s) s" by (rule take_is_prefix)
    finally show ?thesis using Some by (subst TrimRightSpace.simps) simp
  qed
qed

lemma TrimRightSpace_no_suffix:
  "e \<in> set whiteSpace \<Longrightarrow> \<not> suffix e (TrimRightSpace s)"
proof (induction s rule: TrimRightSpace.induct)
  case (1 s)
  show ?case
  proof (cases "find (\<lambda>e. suffix e s) whiteSpace")
    case None
    then have "TrimRightSpace s = s" by (subst TrimRightSpace.simps) simp
    with None "1.prems" show ?thesis by (auto simp: find_None_iff)
  next
    case (Some f)
    then have "TrimRightSpace s = TrimRightSpace (take (length s - length f) s)"
      by (subst TrimRightSpace.simps) simp
    with "1.IH" [OF Some "1.prems"] show ?thesis by simp
  qed
qed

lemma TrimRightSpace_idem: "TrimRightSpace (TrimRightSpace s) = TrimRightSpace s"
  by (rule TrimRightSpace_fix) (auto dest: TrimRightSpace_no_suffix)

lemma hd_TrimRightSpace:
  assumes "TrimRightSpace s \<noteq> []"
  shows "hd (TrimRightSpace s) = hd s"
proof -
  from TrimRightSpace_prefix [of s] obtain zs where "s = TrimRightSpace s @ zs"
    by (auto simp: prefix_def)
  then have "hd s = hd (TrimRightSpace s @ zs)" by (rule arg_cong)
  also have "\<dots> = hd (TrimRightSpace s)" using assms by simp
  finally show ?thesis by (rule sym)
qed


lemma TrimRightSpace_append:
  assumes "\<forall>b'. b' \<noteq> [] \<and> prefix b' b \<longrightarrow>
      (\<forall>f\<in>set whiteSpace. suffix f (a @ b') \<longrightarrow> suffix f b')"
  shows "TrimRightSpace (a @ b) =
    (if TrimRightSpace b = [] then TrimRightSpace a else a @ TrimRightSpace b)"
  using assms
proof (induction b rule: TrimRightSpace.induct)
  case (1 b)
  show ?case
  proof (cases "b = []")
    case True
    then show ?thesis by simp
  next
    case False
    have "suffix f (a @ b) = suffix f b" if "f \<in> set whiteSpace" for f
      using "1.prems" False that by (auto intro: suffix_appendI)
    then have eq: "find (\<lambda>e. suffix e (a @ b)) whiteSpace = find (\<lambda>e. suffix e b) whiteSpace"
      by (intro find_cong) auto
    show ?thesis
    proof (cases "find (\<lambda>e. suffix e b) whiteSpace")
      case None
      then have "TrimRightSpace b = b" by (subst TrimRightSpace.simps) simp
      moreover have "TrimRightSpace (a @ b) = a @ b"
        using None eq by (subst TrimRightSpace.simps) simp
      ultimately show ?thesis using False by simp
    next
      case (Some e)
      let ?b0 = "take (length b - length e) b"
      from Some have e: "suffix e b" by (auto simp: find_Some_iff)
      then have le: "length e \<le> length b" by (rule suffix_length_le)
      have 1: "TrimRightSpace b = TrimRightSpace ?b0"
        using Some by (subst TrimRightSpace.simps) simp
      have "TrimRightSpace (a @ b) = TrimRightSpace (take (length (a @ b) - length e) (a @ b))"
        using Some eq by (subst TrimRightSpace.simps) simp
      also have "take (length (a @ b) - length e) (a @ b) = a @ ?b0" using le by simp
      finally have 2: "TrimRightSpace (a @ b) = TrimRightSpace (a @ ?b0)" .
      have "prefix ?b0 b" by (rule take_is_prefix)
      then have p: "\<forall>b'. b' \<noteq> [] \<and> prefix b' ?b0 \<longrightarrow>
          (\<forall>f\<in>set whiteSpace. suffix f (a @ b') \<longrightarrow> suffix f b')"
        using "1.prems" by (meson prefix_order.trans)
      from "1.IH" [OF Some p] 1 2 show ?thesis by simp
    qed
  qed
qed

lemma no_straddle_start:
  assumes "\<not> continuation (hd b)" and "b \<noteq> []" and "f \<in> set whiteSpace"
    and "suffix f (a @ b)"
  shows "suffix f b"
proof (rule ccontr)
  assume n: "\<not> suffix f b"
  with assms(4) obtain f' where f: "f = f' @ b" by (auto simp: suffix_append)
  with n have "f' \<noteq> []" by auto
  with f assms(2) have "hd b \<in> set (tl f)" by (cases f') auto
  with whiteSpace_bytes(2) [OF assms(3)] have "continuation (hd b)" by (simp add: list_all_iff)
  with assms(1) show False by simp
qed

lemma no_straddle_whiteSpace:
  assumes "e \<in> set whiteSpace" and "f \<in> set whiteSpace" and "b \<noteq> []"
    and "suffix f (e @ b)"
  shows "suffix f b"
proof (rule ccontr)
  assume n: "\<not> suffix f b"
  with assms(4) obtain f' where f: "f = f' @ b" and s: "suffix f' e"
    by (auto simp: suffix_append)
  with n have ne: "f' \<noteq> []" by auto
  then have h: "hd f' = hd f" using f by simp
  from s obtain p where e: "e = p @ f'" by (auto simp: suffix_def)
  show False
  proof (cases "p = []")
    case True
    with e f have "prefix e f" by simp
    with assms(1,2) have "e = f" by (rule whiteSpace_prefix_free)
    with e f True assms(3) show False by simp
  next
    case False
    with e ne have "hd f' \<in> set (tl e)" by (cases p) auto
    with whiteSpace_bytes(2) [OF assms(1)] have "continuation (hd f')" by (simp add: list_all_iff)
    with h whiteSpace_bytes(1) [OF assms(2)] show False by simp
  qed
qed

lemma TrimRightSpace_whiteSpace_append:
  assumes "e \<in> set whiteSpace"
  shows "TrimRightSpace (e @ s) = (if TrimRightSpace s = [] then [] else e @ TrimRightSpace s)"
proof -
  have "TrimRightSpace ([] @ e) = TrimRightSpace []" using assms by (rule TrimRightSpace_step)
  then have e: "TrimRightSpace e = []" by simp
  have "\<forall>b'. b' \<noteq> [] \<and> prefix b' s \<longrightarrow>
      (\<forall>f\<in>set whiteSpace. suffix f (e @ b') \<longrightarrow> suffix f b')"
    using assms by (auto intro: no_straddle_whiteSpace)
  from TrimRightSpace_append [OF this] e show ?thesis by simp
qed

lemma TrimLeftSpace_TrimRightSpace:
  "TrimLeftSpace (TrimRightSpace s) = TrimRightSpace (TrimLeftSpace s)"
proof (induction s rule: TrimLeftSpace.induct)
  case (1 s)
  show ?case
  proof (cases "find (\<lambda>e. prefix e s) whiteSpace")
    case None
    then have l: "TrimLeftSpace s = s" by (subst TrimLeftSpace.simps) simp
    have "\<not> prefix e (TrimRightSpace s)" if "e \<in> set whiteSpace" for e
    proof
      assume "prefix e (TrimRightSpace s)"
      also have "prefix (TrimRightSpace s) s" by (rule TrimRightSpace_prefix)
      finally show False using None that by (auto simp: find_None_iff)
    qed
    then have "TrimLeftSpace (TrimRightSpace s) = TrimRightSpace s"
      by (intro TrimLeftSpace_fix) auto
    with l show ?thesis by simp
  next
    case (Some e)
    let ?s' = "drop (length e) s"
    from Some have e: "e \<in> set whiteSpace" and p: "prefix e s" by (auto simp: find_Some_iff)
    from p have s: "s = e @ ?s'" by (auto simp: prefix_def)
    have l: "TrimLeftSpace s = TrimLeftSpace ?s'" using Some by (subst TrimLeftSpace.simps) simp
    have ih: "TrimLeftSpace (TrimRightSpace ?s') = TrimRightSpace (TrimLeftSpace ?s')"
      using Some by (rule "1.IH")
    have r: "TrimRightSpace s =
        (if TrimRightSpace ?s' = [] then [] else e @ TrimRightSpace ?s')"
      using TrimRightSpace_whiteSpace_append [OF e, of ?s'] s by simp
    show ?thesis
    proof (cases "TrimRightSpace ?s' = []")
      case True
      with ih have "TrimRightSpace (TrimLeftSpace ?s') = []" by simp
      with True r l show ?thesis by simp
    next
      case False
      with r have "TrimLeftSpace (TrimRightSpace s) = TrimLeftSpace (e @ TrimRightSpace ?s')"
        by simp
      also have "\<dots> = TrimLeftSpace (TrimRightSpace ?s')" using e by (rule TrimLeftSpace_step)
      finally show ?thesis using ih l by simp
    qed
  qed
qed

lemma TrimSpace_TrimRightSpace: "TrimSpace (TrimRightSpace s) = TrimSpace s"
  by (simp add: TrimSpace_def TrimLeftSpace_TrimRightSpace TrimRightSpace_idem)

lemma TrimSpace_separator: "list_all asciiSpace sep \<Longrightarrow> TrimSpace (sep @ s) = TrimSpace s"
  by (simp add: TrimSpace_def TrimLeftSpace_separator)

lemma TrimSpace_token_append:
  assumes "t \<noteq> []" and "hd t = CHR ''-''" and "TrimSpace t = t"
    and "tail = [] \<or> hd tail = CHR '' ''"
  shows "TrimSpace (t @ tail) = t @ TrimRightSpace tail"
proof -
  from assms(1,2) obtain t' where t: "t = CHR ''-'' # t'" by (cases t) auto
  have l: "TrimLeftSpace (t @ tail) = t @ tail" unfolding t using TrimLeftSpace_dash by simp
  have "TrimLeftSpace t = t" unfolding t by (rule TrimLeftSpace_dash)
  with assms(3) have r: "TrimRightSpace t = t" by (simp add: TrimSpace_def)
  have "suffix f b'" if "b' \<noteq> []" "prefix b' tail" "f \<in> set whiteSpace" "suffix f (t @ b')"
    for b' f
  proof -
    from that(1,2) assms(4) have "hd b' = CHR '' ''" by (auto simp: prefix_def)
    then have "\<not> continuation (hd b')" by (simp add: continuation_def)
    from this that(1,3,4) show ?thesis by (rule no_straddle_start)
  qed
  then have "\<forall>b'. b' \<noteq> [] \<and> prefix b' tail \<longrightarrow>
      (\<forall>f\<in>set whiteSpace. suffix f (t @ b') \<longrightarrow> suffix f b')"
    by blast
  from TrimRightSpace_append [OF this] r l show ?thesis by (simp add: TrimSpace_def)
qed


text \<open>The loop of \<open>parseTag\<close> over the option tokens of a tag.\<close>

lemma parseTag_loop_step:
  assumes "nextOption nxt = (arg, par, nxt')" and "arg \<noteq> []" and "arg \<noteq> ''-''" and "arg \<noteq> ''--''"
  shows "parseTag_loop tag ot nxt =
    (case absorb ot arg par of Inl e \<Rightarrow> Inl (e tag) | Inr ot' \<Rightarrow> parseTag_loop tag ot' nxt')"
  using assms
  by (subst parseTag_loop.simps) (auto simp: absorb_def Let_def split: prod.splits)

lemma parseTag_loop_stop:
  assumes "nextOption nxt = (arg, [], nxt')" and "arg = [] \<or> arg = ''-'' \<or> arg = ''--''"
  shows "parseTag_loop tag ot nxt =
    (if long ot = [] \<and> short ot = 0
     then (if nxt' \<noteq> [] then Inl (MissingOptionName tag) else Inr None)
     else Inr (Some (ot\<lparr>helpText := nxt'\<rparr>)))"
  using assms by (subst parseTag_loop.simps) auto

lemma Index_char_absent: "c \<notin> set s \<Longrightarrow> Index s [c] = None"
  by (induction s) auto

lemma Index_char_first: "c \<notin> set p \<Longrightarrow> Index (p @ c # r) [c] = Some (length p)"
  by (induction p) auto

lemma Index_char_takeWhile:
  "(case Index t [c] of Some x \<Rightarrow> take x t | None \<Rightarrow> t) = takeWhile (\<lambda>d. d \<noteq> c) t"
  by (induction t) (auto split: option.splits)

lemma nextOption_token:
  assumes "t \<noteq> []" and "hd t = CHR ''-''" and "CHR '' '' \<notin> set t" and "TrimSpace t = t"
    and "tail = [] \<or> hd tail = CHR '' ''"
  shows "nextOption (TrimSpace (t @ tail)) =
    (takeWhile (\<lambda>c. c \<noteq> CHR ''='') t,
     (case Index t ''='' of Some x \<Rightarrow> drop (x + 1) t | None \<Rightarrow> []),
     TrimSpace tail)"
proof -
  let ?r = "TrimRightSpace tail"
  have ts: "TrimSpace (t @ tail) = t @ ?r"
    using assms(1,2,4,5) by (rule TrimSpace_token_append)
  have h: "t @ ?r \<noteq> []" "hd (t @ ?r) = CHR ''-''" using assms(1,2) by auto
  have split: "(case Index (t @ ?r) '' '' of
        Some x \<Rightarrow> (take x (t @ ?r), TrimSpace (drop x (t @ ?r)))
      | None \<Rightarrow> (t @ ?r, [])) = (t, TrimSpace tail)"
  proof (cases ?r)
    case Nil
    then have "TrimSpace tail = []" using TrimSpace_TrimRightSpace [of tail] by simp
    with Nil assms(3) show ?thesis by (simp add: Index_char_absent)
  next
    case (Cons c r)
    with assms(5) hd_TrimRightSpace [of tail] have "c = CHR '' ''" by auto
    with Cons assms(3) have "Index (t @ ?r) '' '' = Some (length t)"
      by (simp add: Index_char_first)
    then show ?thesis using TrimSpace_TrimRightSpace [of tail] by simp
  qed
  show ?thesis
    unfolding ts nextOption_def using h split Index_char_takeWhile [of t "CHR ''=''"]
    by (auto simp: Let_def split: option.splits)
qed

lemma nextOption_Nil: "nextOption [] = ([], [], [])"
  by (simp add: nextOption_def)

lemma TrimSpace_break: "brk = ''-'' \<or> brk = ''--'' \<Longrightarrow> TrimSpace brk = brk"
  using TrimRightSpace_dash [of "[]"] TrimRightSpace_dash [of "''-''"]
  by (auto simp: TrimSpace_def TrimLeftSpace_dash)

lemma nextOption_break:
  assumes "brk = ''-'' \<or> brk = ''--''" and "tail = [] \<or> hd tail = CHR '' ''"
  shows "nextOption (TrimSpace (brk @ tail)) = (brk, [], TrimSpace tail)"
proof -
  from assms(1) have "brk \<noteq> []" "hd brk = CHR ''-''" "CHR '' '' \<notin> set brk" "TrimSpace brk = brk"
    using TrimSpace_break [OF assms(1)] by auto
  from nextOption_token [OF this assms(2)] assms(1) show ?thesis by auto
qed

lemma parseTag_loop_tokens:
  assumes "\<forall>(t, sep)\<in>set toks. option_token t \<and> separator sep"
    and "parseTag_loop tag ot (TrimSpace (concat (map (\<lambda>(t, sep). t @ sep) toks))) = Inr (Some ot')"
    and "brk = ''-'' \<or> brk = ''--''" and "tail = [] \<or> hd tail = CHR '' ''"
  shows "parseTag_loop tag' ot (TrimSpace (concat (map (\<lambda>(t, sep). t @ sep) toks) @ brk @ tail)) =
    Inr (Some (ot'\<lparr>helpText := TrimSpace tail\<rparr>))"
  using assms(1,2)
proof (induction toks arbitrary: ot)
  case Nil
  from Nil.prems(2) have n: "\<not> (long ot = [] \<and> short ot = 0)" and o: "ot' = ot\<lparr>helpText := []\<rparr>"
    by (auto simp: parseTag_loop_stop [OF nextOption_Nil] split: if_splits)
  have "parseTag_loop tag' ot (TrimSpace (brk @ tail)) = Inr (Some (ot\<lparr>helpText := TrimSpace tail\<rparr>))"
    using parseTag_loop_stop [OF nextOption_break [OF assms(3,4)], of tag' ot] assms(3) n by auto
  with o show ?case by simp
next
  case (Cons e toks)
  obtain t sep where e: "e = (t, sep)" by (cases e)
  let ?raw = "concat (map (\<lambda>(t, sep). t @ sep) toks)"
  from Cons.prems(1) e have tok: "option_token t" and sep: "sep \<noteq> []" "hd sep = CHR '' ''"
    "list_all asciiSpace sep" and rest: "\<forall>(t, sep)\<in>set toks. option_token t \<and> separator sep"
    by (auto simp: separator_def)
  from tok have t: "t \<noteq> []" "hd t = CHR ''-''" "CHR '' '' \<notin> set t" "TrimSpace t = t"
    and a: "takeWhile (\<lambda>c. c \<noteq> CHR ''='') t \<noteq> ''-''" "takeWhile (\<lambda>c. c \<noteq> CHR ''='') t \<noteq> ''--''"
    by (auto simp: option_token_def)
  let ?arg = "takeWhile (\<lambda>c. c \<noteq> CHR ''='') t"
  let ?par = "case Index t ''='' of Some x \<Rightarrow> drop (x + 1) t | None \<Rightarrow> []"
  have an: "?arg \<noteq> []" using t(1,2) by (cases t) auto
  have hs: "\<And>x. hd (sep @ x) = CHR '' ''" using sep by simp
  have n1: "nextOption (TrimSpace (t @ (sep @ ?raw))) = (?arg, ?par, TrimSpace ?raw)"
    using nextOption_token [OF t, of "sep @ ?raw"] hs sep(3) by (simp add: TrimSpace_separator)
  have n2: "nextOption (TrimSpace (t @ (sep @ ?raw @ brk @ tail))) =
      (?arg, ?par, TrimSpace (?raw @ brk @ tail))"
    using nextOption_token [OF t, of "sep @ ?raw @ brk @ tail"] hs sep(3)
    by (simp add: TrimSpace_separator)
  from Cons.prems(2) e
  have "parseTag_loop tag ot (TrimSpace (t @ (sep @ ?raw))) = Inr (Some ot')" by simp
  then obtain ot1 where ab: "absorb ot ?arg ?par = Inr ot1"
    and l: "parseTag_loop tag ot1 (TrimSpace ?raw) = Inr (Some ot')"
    unfolding parseTag_loop_step [OF n1 an a] by (auto split: sum.splits)
  have "parseTag_loop tag' ot (TrimSpace (t @ (sep @ ?raw @ brk @ tail))) =
      parseTag_loop tag' ot1 (TrimSpace (?raw @ brk @ tail))"
    unfolding parseTag_loop_step [OF n2 an a] by (simp add: ab)
  also have "\<dots> = Inr (Some (ot'\<lparr>helpText := TrimSpace tail\<rparr>))"
    using Cons.IH [OF rest l] .
  finally show ?case using e by simp
qed

lemma TrimSpace_tag_nonempty:
  assumes "\<forall>(t, sep)\<in>set toks. option_token t \<and> separator sep"
    and "brk = ''-'' \<or> brk = ''--''" and "tail = [] \<or> hd tail = CHR '' ''"
  shows "TrimSpace (concat (map (\<lambda>(t, sep). t @ sep) toks) @ brk @ tail) \<noteq> []"
proof (cases toks)
  case Nil
  from assms(2) have "brk \<noteq> []" "hd brk = CHR ''-''" by auto
  from TrimSpace_token_append [OF this TrimSpace_break [OF assms(2)] assms(3)] this(1) Nil
  show ?thesis by simp
next
  case (Cons e toks')
  obtain t sep where e: "e = (t, sep)" by (cases e)
  let ?tail = "sep @ concat (map (\<lambda>(t, sep). t @ sep) toks') @ brk @ tail"
  from assms(1) Cons e have t: "t \<noteq> []" "hd t = CHR ''-''" "TrimSpace t = t"
    and s: "sep \<noteq> []" "hd sep = CHR '' ''"
    by (auto simp: option_token_def separator_def)
  from s have "?tail = [] \<or> hd ?tail = CHR '' ''" by simp
  from TrimSpace_token_append [OF t this] t(1) Cons e show ?thesis by simp
qed

text \<open>
  Claim C6, as stated, fails: in the tag \<open>-a -b -- help\<close> a bare \<open>--\<close> follows two
  option tokens, and \<open>parseTag\<close> returns the error for too many short names.
\<close>

theorem parseTag_terminator_counterexample:
  "parseTag ''-a -b -- help'' = Inl (TooManyShortNames ''-a -b -- help'')"
  by code_simp

text \<open>
  Claim C6, amended.  The tag starts with option tokens, each followed by a separator: a
  space character (U+0020), possibly followed by more ASCII white space.  \<open>parseTag\<close>
  accepts them when they stand alone: it returns a descriptor \<open>ot\<close> for them.  When a
  bare \<open>-\<close> or \<open>--\<close> follows them, at the end of the tag or followed by a space character
  and any text, \<open>parseTag\<close> succeeds with the same descriptor, and the help text is
  exactly the text after that token, trimmed of white space, also when it begins with a
  dash.  The example of the claim is the second statement.
\<close>

theorem parseTag_terminator:
  assumes "\<forall>(t, sep)\<in>set toks. option_token t \<and> separator sep"
    and "parseTag (concat (map (\<lambda>(t, sep). t @ sep) toks)) = Inr (Some ot)"
    and "brk = ''-'' \<or> brk = ''--''" and "rest = [] \<or> hd rest = CHR '' ''"
  shows "parseTag (concat (map (\<lambda>(t, sep). t @ sep) toks) @ brk @ rest) =
      Inr (Some (ot\<lparr>helpText := TrimSpace rest\<rparr>)) \<and>
    parseTag ''--option -- -this is an option'' =
      Inr (Some \<lparr>long = ''option'', short = 0, param = [],
                     helpText = ''-this is an option''\<rparr>)"
proof
  let ?raw = "concat (map (\<lambda>(t, sep). t @ sep) toks)"
  from assms(2) have l: "parseTag_loop (TrimSpace ?raw) empty_optTag (TrimSpace ?raw) = Inr (Some ot)"
    by (auto simp: parseTag_def Let_def split: if_splits)
  have ne: "TrimSpace (?raw @ brk @ rest) \<noteq> []"
    using assms(1,3,4) by (rule TrimSpace_tag_nonempty)
  show "parseTag (?raw @ brk @ rest) = Inr (Some (ot\<lparr>helpText := TrimSpace rest\<rparr>))"
    using parseTag_loop_tokens [OF assms(1) l assms(3,4), of "TrimSpace (?raw @ brk @ rest)"] ne
    by (simp add: parseTag_def Let_def)
next
  show "parseTag ''--option -- -this is an option'' =
      Inr (Some \<lparr>long = ''option'', short = 0, param = [],
                     helpText = ''-this is an option''\<rparr>)"
    by code_simp
qed


theorem parseTag_terminator_witness:
  "option_token ''--option=PARAM'' \<and> separator [CHR '' '', CHR 0x09] \<and>
   option_token [CHR ''-'', CHR 0xC3, CHR 0xA9] \<and> separator '' '' \<and>
   parseTag (''--option=PARAM'' @ [CHR '' '', CHR 0x09] @ [CHR ''-'', CHR 0xC3, CHR 0xA9] @ '' '') =
     Inr (Some \<lparr>long = ''option'', short = 233, param = ''PARAM'', helpText = []\<rparr>) \<and>
   parseTag (''--option=PARAM'' @ [CHR '' '', CHR 0x09] @ [CHR ''-'', CHR 0xC3, CHR 0xA9] @ '' '' @
       ''--'' @ '' - this is help'' @ [CHR 0xC2, CHR 0xA0, CHR '' '']) =
     Inr (Some \<lparr>long = ''option'', short = 233, param = ''PARAM'',
                    helpText = ''- this is help''\<rparr>)"
proof -
  let ?ot = "\<lparr>long = ''option'', short = 233, param = ''PARAM'', helpText = []\<rparr>"
  have t: "option_token ''--option=PARAM''" "separator [CHR '' '', CHR 0x09]"
    "option_token [CHR ''-'', CHR 0xC3, CHR 0xA9]" "separator '' ''"
    by code_simp+
  have p: "parseTag (''--option=PARAM'' @ [CHR '' '', CHR 0x09] @
      [CHR ''-'', CHR 0xC3, CHR 0xA9] @ '' '') = Inr (Some ?ot)"
    by code_simp
  have h: "TrimSpace ('' - this is help'' @ [CHR 0xC2, CHR 0xA0, CHR '' '']) = ''- this is help''"
    by code_simp
  from parseTag_terminator [of "[(''--option=PARAM'', [CHR '' '', CHR 0x09]),
        ([CHR ''-'', CHR 0xC3, CHR 0xA9], '' '')]" ?ot "''--''"
      "'' - this is help'' @ [CHR 0xC2, CHR 0xA0, CHR '' '']"] t p h
  show ?thesis by simp
qed

section \<open>The duplicate that the apply phase works on\<close>

lemma leaf_iff: "leaf v \<longleftrightarrow> (\<forall>t. v \<noteq> RVal (VMap t))"
  by (auto simp: leaf_def split: ref_val.splits val.splits)

lemma source_entries_iff:
  "source_entries F n h es \<longleftrightarrow>
     (\<forall>(k, v)\<in>set es. (\<forall>b. v = RMap b \<longrightarrow> deep F n h b) \<and> (\<forall>t. v \<noteq> RVal (VMap t)))"
  unfolding source_entries_def list_all_iff
  by (auto simp: leaf_iff split: ref_val.splits)

lemma deep_Suc: "deep F (Suc n) h a \<longleftrightarrow> a < F \<and> source_entries F n h (cells h a)"
  by (simp add: source_entries_def)

declare deep.simps(2) [simp del]

lemma set_update_subset: "set (AList.update k v al) \<subseteq> insert (k, v) (set al)"
  by (induction al) auto

lemma set_delete_subset: "set (AList.delete k al) \<subseteq> set al"
  by (induction al) auto

lemma h_make_simps [simp]:
  "cells (fst (h_make h)) a = (if a = free h then [] else cells h a)"
  "free (fst (h_make h)) = Suc (free h)"
  "snd (h_make h) = free h"
  by (simp_all add: h_make_def)

lemma h_assign_simps [simp]:
  "cells (h_assign a k v h) b = (if b = a then AList.update k v (cells h a) else cells h b)"
  "free (h_assign a k v h) = free h"
  by (simp_all add: h_assign_def)

lemma h_delete_simps [simp]:
  "cells (h_delete a k h) b = (if b = a then AList.delete k (cells h a) else cells h b)"
  "free (h_delete a k h) = free h"
  by (simp_all add: h_delete_def)

lemma closed_from_make:
  assumes "closed_from F h"
  shows "closed_from F (fst (h_make h))"
  unfolding closed_from_def
proof (intro allI impI)
  fix a k b
  assume p: "F \<le> a \<and> a < free (fst (h_make h)) \<and> (k, RMap b) \<in> set (cells (fst (h_make h)) a)"
  then have ne: "a \<noteq> free h" by (auto split: if_splits)
  with p have "F \<le> a \<and> a < free h \<and> (k, RMap b) \<in> set (cells h a)" by simp
  with assms have "F \<le> b \<and> b < free h" unfolding closed_from_def by blast
  then show "F \<le> b \<and> b < free (fst (h_make h))" by simp
qed

lemma closed_fromD:
  "closed_from F h \<Longrightarrow> F \<le> a \<Longrightarrow> a < free h \<Longrightarrow> (k, RMap b) \<in> set (cells h a) \<Longrightarrow>
   F \<le> b \<and> b < free h"
  unfolding closed_from_def by blast

lemma closed_from_assign:
  assumes "closed_from F h" and "\<forall>b. v = RMap b \<longrightarrow> F \<le> b \<and> b < free h"
  shows "closed_from F (h_assign a k v h)"
  unfolding closed_from_def
proof (intro allI impI, elim conjE)
  fix a' k' b
  assume p1: "F \<le> a'" and p2: "a' < free (h_assign a k v h)"
    and p3: "(k', RMap b) \<in> set (cells (h_assign a k v h) a')"
  from p2 have p2': "a' < free h" by simp
  have "(k', RMap b) \<in> set (cells h a') \<or> RMap b = v"
  proof (cases "a' = a")
    case True
    with p3 have "(k', RMap b) \<in> set (AList.update k v (cells h a))" by simp
    then have "(k', RMap b) \<in> insert (k, v) (set (cells h a))"
      using set_update_subset [of k v "cells h a"] by blast
    with True show ?thesis by auto
  next
    case False
    with p3 show ?thesis by simp
  qed
  then have "F \<le> b \<and> b < free h"
  proof
    assume "(k', RMap b) \<in> set (cells h a')"
    with assms(1) p1 p2' show ?thesis by (rule closed_fromD)
  next
    assume "RMap b = v"
    with assms(2) show ?thesis by auto
  qed
  then show "F \<le> b \<and> b < free (h_assign a k v h)" by simp
qed

lemma closed_from_delete:
  assumes "closed_from F h"
  shows "closed_from F (h_delete a k h)"
  unfolding closed_from_def
proof (intro allI impI, elim conjE)
  fix a' k' b
  assume p1: "F \<le> a'" and p2: "a' < free (h_delete a k h)"
    and p3: "(k', RMap b) \<in> set (cells (h_delete a k h) a')"
  from p2 have p2': "a' < free h" by simp
  have "(k', RMap b) \<in> set (cells h a')"
  proof (cases "a' = a")
    case True
    with p3 have "(k', RMap b) \<in> set (AList.delete k (cells h a))" by simp
    then have "(k', RMap b) \<in> set (cells h a)"
      using set_delete_subset [of k "cells h a"] by blast
    with True show ?thesis by simp
  next
    case False
    with p3 show ?thesis by simp
  qed
  with assms p1 p2' have "F \<le> b \<and> b < free h" by (rule closed_fromD)
  then show "F \<le> b \<and> b < free (h_delete a k h)" by simp
qed

lemma h_mergemap_entries_frame:
  assumes "h_mergemap_entries n h new es = Some h'" and "F \<le> new" and "new < free h"
    and "closed_from F h"
  shows "(\<forall>a<F. cells h' a = cells h a) \<and> free h \<le> free h' \<and> closed_from F h'"
  using assms
proof (induction n h new es arbitrary: h' rule: h_mergemap_entries.induct)
  case (1 n h new)
  then show ?case by simp
next
  case (2 n h new k x old)
  let ?h = "h_assign new k (RVal x) h"
  have c: "closed_from F ?h" using "2.prems"(4) by (rule closed_from_assign) simp
  have "(\<forall>a<F. cells h' a = cells ?h a) \<and> free ?h \<le> free h' \<and> closed_from F h'"
    using "2.prems" c by (intro "2.IH") simp_all
  with "2.prems"(2) show ?case by auto
next
  case (3 h new k vm old)
  then show ?case by simp
next
  case (4 n h new k vm old)
  obtain h1 c where mk: "h_make h = (h1, c)" by (cases "h_make h")
  have h1: "h1 = fst (h_make h)" and c: "c = free h" using mk by (auto simp: h_make_def)
  from "4.prems"(1) obtain h2 where
    n1: "h_mergemap_entries n h1 c (cells h1 vm) = Some h2" and
    n2: "h_mergemap_entries (Suc n) (h_assign new k (RMap c) h2) new old = Some h'"
    unfolding h_mergemap_entries.simps mk prod.case by (auto split: option.splits)
  have Ff: "F \<le> free h" using "4.prems"(2,3) by simp
  have cl1: "closed_from F h1" unfolding h1 using "4.prems"(4) by (rule closed_from_make)
  have f1: "free h1 = Suc (free h)" by (simp add: h1)
  have r1: "(\<forall>a<F. cells h2 a = cells h1 a) \<and> free h1 \<le> free h2 \<and> closed_from F h2"
    using Ff by (intro "4.IH"(1) [OF mk [symmetric] n1 _ _ cl1]) (simp_all add: c f1)
  let ?h = "h_assign new k (RMap c) h2"
  have cl2: "closed_from F ?h"
    using r1 Ff by (intro closed_from_assign) (auto simp: c f1)
  have r2: "(\<forall>a<F. cells h' a = cells ?h a) \<and> free ?h \<le> free h' \<and> closed_from F h'"
    using "4.prems"(2,3) r1
    by (intro "4.IH"(2) [OF mk [symmetric] n1 n2 _ _ cl2]) (simp_all add: f1)
  have "\<forall>a<F. cells h1 a = cells h a" using Ff by (simp add: h1)
  with r1 r2 "4.prems"(2) f1 show ?case by auto
qed


lemma closed_from_free: "closed_from (free h) h"
  by (simp add: closed_from_def)

lemma h_mergemap_duplicate_frame:
  assumes "h_mergemap n h None old = Some (h', c)"
  shows "(\<forall>a<free h. cells h' a = cells h a) \<and> c = free h \<and> c < free h' \<and>
    closed_from (free h) h'"
proof -
  let ?h1 = "fst (h_make h)"
  from assms have c: "c = free h"
    and e: "h_mergemap_entries n ?h1 (free h) (case old of None \<Rightarrow> [] | Some b \<Rightarrow> cells ?h1 b) = Some h'"
    by (auto simp: h_mergemap_def case_prod_beta split: option.splits)
  have "closed_from (free h) ?h1" using closed_from_free by (rule closed_from_make)
  from h_mergemap_entries_frame [OF e _ _ this]
  have "(\<forall>a<free h. cells h' a = cells ?h1 a) \<and> free ?h1 \<le> free h' \<and> closed_from (free h) h'"
    by simp
  then show ?thesis using c by auto
qed

lemma h_visit_frame:
  assumes "h_visit pth err m h ot = (err', h', ot')"
  shows "h' = h \<or> (\<exists>k. h' = h_delete m k h)"
  using assms
  by (auto simp: h_visit_def Let_def split: if_splits option.splits ref_val.splits val.splits prod.splits)

lemma h_VisitAll_frame:
  assumes "h_VisitAll pth err m h ots = (err', h', ots')"
  shows "(\<forall>b. b \<noteq> m \<longrightarrow> cells h' b = cells h b) \<and> free h' = free h \<and>
    (closed_from F h \<longrightarrow> closed_from F h')"
  using assms
proof (induction ots arbitrary: err h err' h' ots')
  case Nil
  then show ?case by simp
next
  case (Cons ot ots)
  obtain e1 h1 ot1 where v: "h_visit pth err m h ot = (e1, h1, ot1)"
    by (cases "h_visit pth err m h ot")
  obtain e2 h2 ots2 where r: "h_VisitAll pth e1 m h1 ots = (e2, h2, ots2)"
    by (cases "h_VisitAll pth e1 m h1 ots")
  from Cons.prems v r have h': "h' = h2" by simp
  from h_visit_frame [OF v]
  have 1: "(\<forall>b. b \<noteq> m \<longrightarrow> cells h1 b = cells h b) \<and> free h1 = free h \<and>
      (closed_from F h \<longrightarrow> closed_from F h1)"
    by (auto simp: closed_from_delete)
  from Cons.IH [OF r] 1 h' show ?case by simp
qed

declare h_apply_sets.simps [simp del]

lemma h_apply_sets_Cons:
  "h_apply_sets pth ((name, b) # sets) m h store =
     (if name \<noteq> [] \<and> (\<forall>sm. map_of (cells h m) name \<noteq> Some (RMap sm))
      then h_apply_sets pth sets m h store
      else case h_VisitAll pth None
                  (if name \<noteq> [] then (case map_of (cells h m) name of Some (RMap sm) \<Rightarrow> sm) else m)
                  h (store b) of
        (e1, h1, ots1) \<Rightarrow>
          if e1 \<noteq> None then (e1, h1, store(b := ots1))
          else h_apply_sets pth sets m h1 (store(b := ots1)))"
  by (auto simp: h_apply_sets.simps Let_def split: option.splits ref_val.splits prod.splits)

lemma h_apply_sets_frame:
  assumes "h_apply_sets pth sets m h store = (err, h', store')"
    and "F \<le> m" and "m < free h" and "closed_from F h"
  shows "(\<forall>b<F. cells h' b = cells h b) \<and> free h' = free h \<and> closed_from F h'"
  using assms
proof (induction sets arbitrary: h store)
  case Nil
  then show ?case by (simp add: h_apply_sets.simps)
next
  case (Cons s sets)
  obtain name b where s: "s = (name, b)" by (cases s)
  show ?case
  proof (cases "name \<noteq> [] \<and> (\<forall>sm. map_of (cells h m) name \<noteq> Some (RMap sm))")
    case True
    with Cons.prems(1) s have "h_apply_sets pth sets m h store = (err, h', store')"
      by (simp add: h_apply_sets_Cons)
    then show ?thesis using Cons.prems(2-4) by (rule Cons.IH)
  next
    case False
    define wa where "wa = (if name \<noteq> [] then (case map_of (cells h m) name of Some (RMap sm) \<Rightarrow> sm) else m)"
    have wa: "F \<le> wa"
    proof (cases "name = []")
      case True
      with Cons.prems(2) show ?thesis by (simp add: wa_def)
    next
      case nn: False
      with False obtain sm where sm: "map_of (cells h m) name = Some (RMap sm)" by auto
      then have "(name, RMap sm) \<in> set (cells h m)" by (rule map_of_SomeD)
      with Cons.prems(2-4) have "F \<le> sm \<and> sm < free h" by (intro closed_fromD)
      with nn sm show ?thesis by (simp add: wa_def)
    qed
    obtain e1 h1 ots1 where v: "h_VisitAll pth None wa h (store b) = (e1, h1, ots1)"
      by (cases "h_VisitAll pth None wa h (store b)")
    from h_VisitAll_frame [OF v, of F] wa Cons.prems(4)
    have 1: "(\<forall>b<F. cells h1 b = cells h b) \<and> free h1 = free h \<and> closed_from F h1" by auto
    from Cons.prems(1) s False v
    have eq: "(if e1 \<noteq> None then (e1, h1, store(b := ots1))
          else h_apply_sets pth sets m h1 (store(b := ots1))) = (err, h', store')"
      by (simp add: h_apply_sets_Cons wa_def)
    show ?thesis
    proof (cases "e1 = None")
      case True
      with eq have "h_apply_sets pth sets m h1 (store(b := ots1)) = (err, h', store')" by simp
      from Cons.IH [OF this Cons.prems(2)] 1 Cons.prems(3) show ?thesis by simp
    next
      case False
      with eq have "h' = h1" by auto
      with 1 show ?thesis by simp
    qed
  qed
qed

lemma h_duplicate_and_apply_frame:
  assumes "h_duplicate_and_apply n pth sets fm h store = Some (err, m, h', store')"
  shows "\<forall>a<free h. cells h' a = cells h a"
proof -
  from assms obtain h1 where d: "h_mergemap n h None fm = Some (h1, m)"
    and a: "h_apply_sets pth sets m h1 store = (err, h', store')"
    by (auto simp: h_duplicate_and_apply_def split: option.splits prod.splits)
  from h_mergemap_duplicate_frame [OF d]
  have 1: "\<forall>a<free h. cells h1 a = cells h a" and 2: "free h \<le> m" "m < free h1"
    and 3: "closed_from (free h) h1" by auto
  from h_apply_sets_frame [OF a 2 3] 1 show ?thesis by simp
qed


lemma h_mergemap_entries_others:
  assumes "h_mergemap_entries n h new es = Some h'"
  shows "(\<forall>a. a < free h \<and> a \<noteq> new \<longrightarrow> cells h' a = cells h a) \<and> free h \<le> free h'"
  using assms
proof (induction n h new es arbitrary: h' rule: h_mergemap_entries.induct)
  case (1 n h new)
  then show ?case by simp
next
  case (2 n h new k x old)
  from "2.IH" [of h'] "2.prems" show ?case by simp
next
  case (3 h new k vm old)
  then show ?case by simp
next
  case (4 n h new k vm old)
  obtain h1 c where mk: "h_make h = (h1, c)" by (cases "h_make h")
  have h1: "h1 = fst (h_make h)" and c: "c = free h" using mk by (auto simp: h_make_def)
  from "4.prems"(1) obtain h2 where
    n1: "h_mergemap_entries n h1 c (cells h1 vm) = Some h2" and
    n2: "h_mergemap_entries (Suc n) (h_assign new k (RMap c) h2) new old = Some h'"
    unfolding h_mergemap_entries.simps mk prod.case by (auto split: option.splits)
  from "4.IH"(1) [OF mk [symmetric] n1]
  have r1: "(\<forall>a. a < free h1 \<and> a \<noteq> c \<longrightarrow> cells h2 a = cells h1 a) \<and> free h1 \<le> free h2" .
  from "4.IH"(2) [OF mk [symmetric] n1 n2]
  have r2: "(\<forall>a. a < free h2 \<and> a \<noteq> new \<longrightarrow> cells h' a = cells (h_assign new k (RMap c) h2) a) \<and>
      free h2 \<le> free h'" by simp
  show ?case
  proof (intro conjI allI impI)
    fix a assume a: "a < free h \<and> a \<noteq> new"
    then have "cells h2 a = cells h1 a" using r1 by (simp add: h1 c)
    moreover have "cells h1 a = cells h a" using a by (simp add: h1)
    moreover have "cells h' a = cells h2 a" using r2 r1 a by (simp add: h1)
    ultimately show "cells h' a = cells h a" by simp
  next
    show "free h \<le> free h'" using r1 r2 by (simp add: h1)
  qed
qed


lemma tree_of_map: "tree_of n h es = map (\<lambda>(k, v). (k, val_of n h v)) es"
  by (induction n h es rule: tree_of.induct) (simp_all add: val_of_def)

lemma map_update: 
  "map (\<lambda>(k, v). (k, f v)) (AList.update k v al) = AList.update k (f v) (map (\<lambda>(k, v). (k, f v)) al)"
  by (induction al) auto

lemma tree_of_update:
  "tree_of n h (AList.update k v es) = AList.update k (val_of n h v) (tree_of n h es)"
  by (simp add: tree_of_map map_update)

lemma deep_frame:
  assumes "\<forall>a<F. cells h' a = cells h a"
  shows "deep F n h' a = deep F n h a"
proof (induction n arbitrary: a)
  case 0
  show ?case by simp
next
  case (Suc n)
  show ?case
  proof (cases "a < F")
    case True
    with assms have c: "cells h' a = cells h a" by simp
    have "deep F n h' = deep F n h" using Suc by (intro ext)
    with c show ?thesis by (simp add: deep.simps(2) cong: ref_val.case_cong)
  next
    case False
    then show ?thesis by (simp add: deep.simps(2))
  qed
qed

lemma source_entries_frame:
  "\<forall>a<F. cells h' a = cells h a \<Longrightarrow> source_entries F n h' es = source_entries F n h es"
  using deep_frame [of F h' h n] by (simp add: source_entries_iff)

lemma val_of_frame_old:
  assumes "\<forall>a<F. cells h' a = cells h a" and "\<forall>b. v = RMap b \<longrightarrow> deep F n h b"
  shows "val_of n h' v = val_of n h v"
  using assms(2)
proof (induction n arbitrary: v)
  case 0
  then show ?case by (cases v) (simp_all add: val_of_def)
next
  case (Suc n)
  show ?case
  proof (cases v)
    case (RMap b)
    with Suc.prems have b: "b < F" and ch: "source_entries F n h (cells h b)"
      by (simp_all add: deep_Suc)
    from b assms(1) have c: "cells h' b = cells h b" by simp
    have "\<And>k w. (k, w) \<in> set (cells h b) \<Longrightarrow> val_of n h' w = val_of n h w"
      using ch by (intro Suc.IH) (auto simp: source_entries_iff)
    then have "tree_of n h' (cells h b) = tree_of n h (cells h b)"
      by (auto simp: tree_of_map)
    with c RMap show ?thesis by (simp add: val_of_def)
  next
    case (RVal x)
    then show ?thesis by (simp add: val_of_def)
  qed
qed

lemma tree_of_frame_old:
  assumes "\<forall>a<F. cells h' a = cells h a" and "source_entries F n h es"
  shows "tree_of n h' es = tree_of n h es"
proof -
  have "\<And>k w. (k, w) \<in> set es \<Longrightarrow> val_of n h' w = val_of n h w"
    using assms(2) by (intro val_of_frame_old [OF assms(1)]) (auto simp: source_entries_iff)
  then show ?thesis by (auto simp: tree_of_map)
qed

lemma region_aboveD:
  "region_above new h \<Longrightarrow> new \<le> a \<Longrightarrow> a < free h \<Longrightarrow> (k, RMap b) \<in> set (cells h a) \<Longrightarrow>
   new < b \<and> b < free h"
  unfolding region_above_def by blast

lemma val_of_frame_new:
  assumes "region_above new h" and "\<forall>a. new < a \<and> a < free h \<longrightarrow> cells h' a = cells h a"
    and "\<forall>b. v = RMap b \<longrightarrow> new < b \<and> b < free h"
  shows "val_of n h' v = val_of n h v"
  using assms(3)
proof (induction n arbitrary: v)
  case 0
  then show ?case by (cases v) (simp_all add: val_of_def)
next
  case (Suc n)
  show ?case
  proof (cases v)
    case (RMap b)
    with Suc.prems have b: "new < b" "b < free h" by simp_all
    with assms(2) have c: "cells h' b = cells h b" by simp
    have "\<And>k w. (k, w) \<in> set (cells h b) \<Longrightarrow> val_of n h' w = val_of n h w"
    proof (rule Suc.IH, intro allI impI)
      fix k w b' assume "(k, w) \<in> set (cells h b)" and "w = RMap b'"
      then have "(k, RMap b') \<in> set (cells h b)" by simp
      with assms(1) b show "new < b' \<and> b' < free h" by (intro region_aboveD [of new h b k b']) simp_all
    qed
    then have "tree_of n h' (cells h b) = tree_of n h (cells h b)"
      by (auto simp: tree_of_map)
    with c RMap show ?thesis by (simp add: val_of_def)
  next
    case (RVal x)
    then show ?thesis by (simp add: val_of_def)
  qed
qed

lemma tree_of_frame_new:
  assumes "region_above new h" and "\<forall>a. new < a \<and> a < free h \<longrightarrow> cells h' a = cells h a"
    and "\<forall>k b. (k, RMap b) \<in> set es \<longrightarrow> new < b \<and> b < free h"
  shows "tree_of n h' es = tree_of n h es"
proof -
  have "\<And>k w. (k, w) \<in> set es \<Longrightarrow> val_of n h' w = val_of n h w"
    using assms(3) by (intro val_of_frame_new [OF assms(1,2)]) auto
  then show ?thesis by (auto simp: tree_of_map)
qed

lemma region_above_assign:
  assumes "region_above new h" and "\<forall>b. v = RMap b \<longrightarrow> new < b \<and> b < free h"
  shows "region_above new (h_assign a k v h)"
  unfolding region_above_def
proof (intro allI impI, elim conjE)
  fix a' k' b
  assume p1: "new \<le> a'" and p2: "a' < free (h_assign a k v h)"
    and p3: "(k', RMap b) \<in> set (cells (h_assign a k v h) a')"
  from p2 have p2': "a' < free h" by simp
  have "(k', RMap b) \<in> set (cells h a') \<or> RMap b = v"
  proof (cases "a' = a")
    case True
    with p3 have "(k', RMap b) \<in> set (AList.update k v (cells h a))" by simp
    then have "(k', RMap b) \<in> insert (k, v) (set (cells h a))"
      using set_update_subset [of k v "cells h a"] by blast
    with True show ?thesis by auto
  next
    case False
    with p3 show ?thesis by simp
  qed
  then have "new < b \<and> b < free h"
  proof
    assume "(k', RMap b) \<in> set (cells h a')"
    with assms(1) p1 p2' show ?thesis by (rule region_aboveD)
  next
    assume "RMap b = v"
    with assms(2) show ?thesis by auto
  qed
  then show "new < b \<and> b < free (h_assign a k v h)" by simp
qed


lemma source_entries_Cons:
  "source_entries F n h ((k, v) # es) \<longleftrightarrow>
     (\<forall>b. v = RMap b \<longrightarrow> deep F n h b) \<and> (\<forall>t. v \<noteq> RVal (VMap t)) \<and> source_entries F n h es"
  by (auto simp: source_entries_iff)

lemma region_above_refs:
  "region_above new h \<Longrightarrow> new < free h \<Longrightarrow> \<forall>k b. (k, RMap b) \<in> set (cells h new) \<longrightarrow> new < b \<and> b < free h"
  by (auto dest: region_aboveD [of new h new])

lemma region_above_make: "region_above (free h) (fst (h_make h))"
  by (simp add: region_above_def less_Suc_eq)

lemma h_mergemap_entries_refines:
  assumes "h_mergemap_entries n h new es = Some h'"
    and "F \<le> new" and "new < free h"
    and "source_entries F n h es"
    and "region_above new h"
  shows "tree_of n h' (cells h' new) = mergemap_entries (tree_of n h (cells h new)) (tree_of n h es) \<and>
    region_above new h'"
  using assms
proof (induction n h new es arbitrary: h' rule: h_mergemap_entries.induct)
  case (1 n h new)
  then show ?case by simp
next
  case (2 n h new k x old)
  let ?h2 = "h_assign new k (RVal x) h"
  from "2.prems"(1) have e: "h_mergemap_entries n ?h2 new old = Some h'" by simp
  from "2.prems"(4) have nx: "\<forall>t. x \<noteq> VMap t" and so: "source_entries F n h old"
    by (simp_all add: source_entries_Cons)
  have fr: "\<forall>a<F. cells ?h2 a = cells h a" using "2.prems"(2) by simp
  have src: "source_entries F n ?h2 old" using source_entries_frame [OF fr] so by simp
  have ab: "region_above new ?h2" using "2.prems"(5) by (rule region_above_assign) simp
  from "2.IH" [OF e "2.prems"(2) _ src ab] "2.prems"(3)
  have ih: "tree_of n h' (cells h' new) =
      mergemap_entries (tree_of n ?h2 (cells ?h2 new)) (tree_of n ?h2 old) \<and> region_above new h'"
    by simp
  have t1: "tree_of n ?h2 (cells h new) = tree_of n h (cells h new)"
    using "2.prems"(5) _ region_above_refs [OF "2.prems"(5,3)] by (rule tree_of_frame_new) simp
  have t2: "tree_of n ?h2 old = tree_of n h old" using fr so by (rule tree_of_frame_old)
  have d: "dup x = x" using nx by (cases x) simp_all
  have "tree_of n ?h2 (cells ?h2 new) = AList.update k x (tree_of n h (cells h new))"
    by (simp add: tree_of_update t1 val_of_def)
  with ih t2 d show ?case by simp
next
  case (3 h new k vm old)
  then show ?case by simp
next
  case (4 n h new k vm old)
  obtain h1 c where mk: "h_make h = (h1, c)" by (cases "h_make h")
  have h1: "h1 = fst (h_make h)" and c: "c = free h" using mk by (auto simp: h_make_def)
  from "4.prems"(1) obtain h2 where
    n1: "h_mergemap_entries n h1 c (cells h1 vm) = Some h2" and
    n2: "h_mergemap_entries (Suc n) (h_assign new k (RMap c) h2) new old = Some h'"
    unfolding h_mergemap_entries.simps mk prod.case by (auto split: option.splits)
  from "4.prems"(4) have dv: "deep F (Suc n) h vm" and so: "source_entries F (Suc n) h old"
    by (simp_all add: source_entries_Cons)
  from dv have vm: "vm < F" and ch: "source_entries F n h (cells h vm)"
    by (simp_all add: deep_Suc)
  have Ff: "F \<le> free h" using "4.prems"(2,3) by simp
  have nc: "new < c" using "4.prems"(3) by (simp add: c)
  have fr1: "\<forall>a<F. cells h1 a = cells h a" using Ff by (simp add: h1)
  have cv: "cells h1 vm = cells h vm" using vm fr1 by simp
  have src1: "source_entries F n h1 (cells h1 vm)"
    using source_entries_frame [OF fr1] ch cv by simp
  have ab1: "region_above c h1" unfolding c h1 by (rule region_above_make)
  have f1: "free h1 = Suc (free h)" by (simp add: h1)
  from "4.IH"(1) [OF mk [symmetric] n1 _ _ src1 ab1] Ff
  have r1: "tree_of n h2 (cells h2 c) =
      mergemap_entries (tree_of n h1 (cells h1 c)) (tree_of n h1 (cells h1 vm)) \<and> region_above c h2"
    by (simp add: c f1)
  have "tree_of n h1 (cells h vm) = tree_of n h (cells h vm)" using fr1 ch by (rule tree_of_frame_old)
  with r1 have copy: "tree_of n h2 (cells h2 c) = mergemap_entries [] (tree_of n h (cells h vm))"
    by (simp add: cv) (simp add: h1 c)
  from r1 have ab2c: "region_above c h2" by simp
  from h_mergemap_entries_others [OF n1]
  have oth: "\<forall>a. a < free h1 \<and> a \<noteq> c \<longrightarrow> cells h2 a = cells h1 a" and f2: "free h1 \<le> free h2"
    by simp_all
  have same: "\<forall>a<free h. cells h2 a = cells h a"
    using oth by (simp add: f1 c h1)
  let ?h3 = "h_assign new k (RMap c) h2"
  have fr3: "\<forall>a<F. cells ?h3 a = cells h a" using "4.prems"(2) same Ff by simp
  have src3: "source_entries F (Suc n) ?h3 old" using source_entries_frame [OF fr3] so by simp
  have ab2: "region_above new h2"
    unfolding region_above_def
  proof (intro allI impI, elim conjE)
    fix a k' b
    assume p: "new \<le> a" "a < free h2" "(k', RMap b) \<in> set (cells h2 a)"
    show "new < b \<and> b < free h2"
    proof (cases "a < free h")
      case True
      with same p(3) have "(k', RMap b) \<in> set (cells h a)" by simp
      with "4.prems"(5) p(1) True have "new < b \<and> b < free h" by (rule region_aboveD)
      with f2 f1 show ?thesis by simp
    next
      case False
      then have "c \<le> a" by (simp add: c)
      with ab2c p(2,3) have "c < b \<and> b < free h2" by (intro region_aboveD [of c h2 a k' b])
      with nc show ?thesis by simp
    qed
  qed
  have ab3: "region_above new ?h3" using ab2 by (rule region_above_assign) (use nc f2 f1 c in simp)
  from "4.IH"(2) [OF mk [symmetric] n1 n2 "4.prems"(2) _ src3 ab3] "4.prems"(3) f2 f1
  have ih: "tree_of (Suc n) h' (cells h' new) =
      mergemap_entries (tree_of (Suc n) ?h3 (cells ?h3 new)) (tree_of (Suc n) ?h3 old) \<and>
      region_above new h'"
    by simp
  have cn: "cells h2 new = cells h new" using same "4.prems"(3) by simp
  have t0: "tree_of n ?h3 (cells h2 c) = tree_of n h2 (cells h2 c)"
    using ab2c _ region_above_refs [OF ab2c] by (rule tree_of_frame_new) (use nc f2 f1 c in auto)
  have vc: "val_of (Suc n) ?h3 (RMap c) = dup (VMap (tree_of n h (cells h vm)))"
    using nc t0 copy by (simp add: val_of_def)
  have t1: "tree_of (Suc n) ?h3 (cells h new) = tree_of (Suc n) h (cells h new)"
    using "4.prems"(5) _ region_above_refs [OF "4.prems"(5,3)]
    by (rule tree_of_frame_new) (use same in auto)
  have t2: "tree_of (Suc n) ?h3 old = tree_of (Suc n) h old" using fr3 so by (rule tree_of_frame_old)
  have "tree_of (Suc n) ?h3 (cells ?h3 new) =
      AList.update k (dup (VMap (tree_of n h (cells h vm)))) (tree_of (Suc n) h (cells h new))"
    using vc t1 cn by (simp add: tree_of_update del: dup.simps)
  with ih t2 show ?case by (simp del: dup.simps)
qed


lemma h_mergemap_entries_total:
  assumes "F \<le> new" and "new < free h" and "source_entries F n h es"
  shows "h_mergemap_entries n h new es \<noteq> None"
  using assms
proof (induction n h new es rule: h_mergemap_entries.induct)
  case (1 n h new)
  show ?case by simp
next
  case (2 n h new k x old)
  let ?h2 = "h_assign new k (RVal x) h"
  have fr: "\<forall>a<F. cells ?h2 a = cells h a" using "2.prems"(1) by simp
  from "2.prems"(3) have "source_entries F n h old" by (simp add: source_entries_Cons)
  then have "source_entries F n ?h2 old" using source_entries_frame [OF fr] by simp
  from "2.IH" [OF "2.prems"(1) _ this] "2.prems"(2) show ?case by simp
next
  case (3 h new k vm old)
  then show ?case by (simp add: source_entries_Cons)
next
  case (4 n h new k vm old)
  obtain h1 c where mk: "h_make h = (h1, c)" by (cases "h_make h")
  have h1: "h1 = fst (h_make h)" and c: "c = free h" using mk by (auto simp: h_make_def)
  from "4.prems"(3) have dv: "deep F (Suc n) h vm" and so: "source_entries F (Suc n) h old"
    by (simp_all add: source_entries_Cons)
  from dv have vm: "vm < F" and ch: "source_entries F n h (cells h vm)"
    by (simp_all add: deep_Suc)
  have Ff: "F \<le> free h" using "4.prems"(1,2) by simp
  have fr1: "\<forall>a<F. cells h1 a = cells h a" using Ff by (simp add: h1)
  have src1: "source_entries F n h1 (cells h1 vm)"
    using source_entries_frame [OF fr1] ch vm fr1 by simp
  have f1: "free h1 = Suc (free h)" by (simp add: h1)
  from "4.IH"(1) [OF mk [symmetric] _ _ src1] Ff
  obtain h2 where n1: "h_mergemap_entries n h1 c (cells h1 vm) = Some h2"
    by (auto simp: c f1)
  from h_mergemap_entries_others [OF n1]
  have oth: "\<forall>a. a < free h1 \<and> a \<noteq> c \<longrightarrow> cells h2 a = cells h1 a" and f2: "free h1 \<le> free h2"
    by simp_all
  let ?h3 = "h_assign new k (RMap c) h2"
  have fr3: "\<forall>a<F. cells ?h3 a = cells h a"
    using "4.prems"(1) oth Ff by (simp add: f1 c h1)
  have src3: "source_entries F (Suc n) ?h3 old" using source_entries_frame [OF fr3] so by simp
  from "4.IH"(2) [OF mk [symmetric] n1 "4.prems"(1) _ src3] "4.prems"(2) f2 f1
  have "h_mergemap_entries (Suc n) ?h3 new old \<noteq> None" by simp
  with n1 mk show ?case by simp
qed

lemma h_mergemap_duplicate:
  assumes "deep (free h) (Suc n) h a"
  shows "\<exists>h' c. h_mergemap n h None (Some a) = Some (h', c) \<and>
    tree_of n h' (cells h' c) = mergemap None (Some (tree_of n h (cells h a)))"
proof -
  let ?h1 = "fst (h_make h)"
  let ?c = "free h"
  from assms have a: "a < free h" and src: "source_entries (free h) n h (cells h a)"
    by (simp_all add: deep_Suc)
  have fr: "\<forall>b<free h. cells ?h1 b = cells h b" by simp
  have src1: "source_entries (free h) n ?h1 (cells ?h1 a)"
    using source_entries_frame [OF fr] src a by simp
  have "h_mergemap_entries n ?h1 ?c (cells ?h1 a) \<noteq> None"
    using _ _ src1 by (rule h_mergemap_entries_total) simp_all
  then obtain h' where e: "h_mergemap_entries n ?h1 ?c (cells ?h1 a) = Some h'" by auto
  then have m: "h_mergemap n h None (Some a) = Some (h', ?c)"
    by (simp add: h_mergemap_def case_prod_beta)
  from h_mergemap_entries_refines [OF e _ _ src1 region_above_make]
  have "tree_of n h' (cells h' ?c) =
      mergemap_entries (tree_of n ?h1 (cells ?h1 ?c)) (tree_of n ?h1 (cells ?h1 a))"
    by simp
  moreover have "tree_of n ?h1 (cells h a) = tree_of n h (cells h a)"
    using fr src by (rule tree_of_frame_old)
  ultimately have "tree_of n h' (cells h' ?c) = mergemap None (Some (tree_of n h (cells h a)))"
    using a by (simp add: mergemap_def)
  with m show ?thesis by blast
qed

lemma h_duplicate_and_apply_total:
  assumes "deep (free h) (Suc n) h a"
  shows "h_duplicate_and_apply n pth sets (Some a) h store \<noteq> None"
  using h_mergemap_duplicate [OF assms]
  by (auto simp: h_duplicate_and_apply_def split: prod.splits)

text \<open>The accumulated tree over the calls of \<open>Set\<close> and \<open>Rescan\<close>.\<close>

lemma keys_update: "fst ` set (AList.update k v al) = insert k (fst ` set al)"
  by (induction al) auto

lemma keys_mergemap_entries:
  "fst ` set (mergemap_entries new old) = fst ` set new \<union> fst ` set old"
proof (induction old arbitrary: new)
  case Nil
  show ?case by simp
next
  case (Cons e old)
  obtain k v where e: "e = (k, v)" by (cases e)
  show ?case by (simp add: e Cons.IH keys_update)
qed

lemma keys_mergemap: "keys (Some (mergemap m (Some t))) = keys m \<union> fst ` set t"
  by (simp add: keys_def mergemap_def keys_mergemap_entries split: option.splits)

lemma Set_accumulated:
  "f_m (fst (snd (Set getenv readFile f w pth opt))) = f_m f \<or>
   (\<exists>t. f_m (fst (snd (Set getenv readFile f w pth opt))) = Some (mergemap (f_m f) (Some t)))"
  by (auto simp: Set_def Let_def split: prod.splits sum.splits option.splits)

lemma Set_keeps_keys:
  "keys (f_m f) \<subseteq> keys (f_m (fst (snd (Set getenv readFile f w pth opt))))"
  using Set_accumulated [of getenv readFile f w pth opt] keys_mergemap [of "f_m f"]
  by auto

lemma Set_rescan_keeps_Flags:
  "fst (snd (Set getenv readFile f w rescanFlags None)) = f"
proof -
  have n: "rescanFlags \<noteq> []" "rescanFlags \<noteq> ''?''" by (simp_all add: rescanFlags_def)
  show ?thesis
    by (simp add: Set_def Let_def expand_rescanFlags n split: prod.splits)
qed

lemma Rescan_keeps_Flags: "fst (snd (Rescan getenv readFile f w name s)) = f"
proof -
  let ?g = "f\<lparr>Sets := [(name, s)]\<rparr>"
  have "fst (snd (Set getenv readFile ?g w rescanFlags None)) = ?g"
    by (rule Set_rescan_keeps_Flags)
  then show ?thesis by (auto simp: Rescan_def Let_def split: prod.splits)
qed

text \<open>
  The apply phase of \<open>Set\<close> and \<open>Rescan\<close> works on a deep duplicate of the accumulated
  map: with the accumulated map of \<open>f\<close> at an address of a heap, \<open>mergemap(nil, f.m)\<close>
  returns a map at a new address that stands for the same tree (the tree that \<open>mergemap\<close>
  computes on values, which is the tree itself when its keys are distinct), and the
  duplicate followed by the loop over the sets returns and leaves every map that existed
  before as it was, so the keys consumed while applying values are deleted from the copy
  only.  A call of \<open>Set\<close> keeps the top-level keys of the accumulated map and adds those
  that it decodes, and \<open>Rescan\<close> leaves the \<open>Flags\<close>, with its field \<open>Sets\<close>, as it found
  it.  An example follows.
\<close>

lemma apply_phase_works_on_duplicate:
  assumes "deep (free h) (Suc n) h a"
    and "f_m f = Some (tree_of n h (cells h a))"
  shows
    "(\<exists>h1 c. h_mergemap n h None (Some a) = Some (h1, c) \<and> free h \<le> c \<and>
        tree_of n h1 (cells h1 c) = mergemap None (f_m f) \<and>
        (wf_tree (tree_of n h (cells h a)) \<longrightarrow>
           tree_of n h1 (cells h1 c) = tree_of n h (cells h a))) \<and>
     (\<exists>err m h' store'.
        h_duplicate_and_apply n pth (Sets f) (Some a) h store = Some (err, m, h', store') \<and>
        free h \<le> m \<and> (\<forall>b<free h. cells h' b = cells h b)) \<and>
     keys (f_m f) \<subseteq> keys (f_m (fst (snd (Set getenv readFile f w pth opt)))) \<and>
     (((opt = None \<and> f_opt f \<noteq> None) \<or> (\<exists>ot. opt = Some ot \<and> Seen ot)) \<and>
      expand getenv pth = v \<and> v \<noteq> [] \<and> v \<noteq> ''?'' \<and> v \<noteq> rescanFlags \<and>
      readFile (if hd v = CHR ''?'' then tl v else v) = Inr data \<and> TrimSpace data \<noteq> [] \<and>
      Decoder f = Some dec \<and> dec (TrimSpace data) = Inr t \<longrightarrow>
        fst ` set t \<subseteq> keys (f_m (fst (snd (Set getenv readFile f w pth opt))))) \<and>
     fst (snd (Rescan getenv readFile f w name s)) = f"
proof -
  from h_mergemap_duplicate [OF assms(1)] obtain h1 c
    where d: "h_mergemap n h None (Some a) = Some (h1, c)"
      and t: "tree_of n h1 (cells h1 c) = mergemap None (Some (tree_of n h (cells h a)))"
    by blast
  from h_mergemap_duplicate_frame [OF d] have c: "free h \<le> c" by simp
  have w: "tree_of n h1 (cells h1 c) = tree_of n h (cells h a)"
    if "wf_tree (tree_of n h (cells h a))"
    using dup_wf(1) [OF that, of "[]"] t by (simp add: mergemap_def)
  have 1: "\<exists>h1 c. h_mergemap n h None (Some a) = Some (h1, c) \<and> free h \<le> c \<and>
        tree_of n h1 (cells h1 c) = mergemap None (f_m f) \<and>
        (wf_tree (tree_of n h (cells h a)) \<longrightarrow>
           tree_of n h1 (cells h1 c) = tree_of n h (cells h a))"
    using d c t w assms(2) by auto
  from h_duplicate_and_apply_total [OF assms(1), of pth "Sets f" store]
  obtain err m h' store'
    where r: "h_duplicate_and_apply n pth (Sets f) (Some a) h store = Some (err, m, h', store')"
    by (cases "h_duplicate_and_apply n pth (Sets f) (Some a) h store") auto
  from r have "h_mergemap n h None (Some a) = Some (h1, m)"
    using d by (auto simp: h_duplicate_and_apply_def split: prod.splits)
  with d c have m: "free h \<le> m" by simp
  have 2: "\<exists>err m h' store'.
        h_duplicate_and_apply n pth (Sets f) (Some a) h store = Some (err, m, h', store') \<and>
        free h \<le> m \<and> (\<forall>b<free h. cells h' b = cells h b)"
    using r m h_duplicate_and_apply_frame [OF r] by blast
  have 3: "keys (f_m f) \<subseteq> keys (f_m (fst (snd (Set getenv readFile f w pth opt))))"
    by (rule Set_keeps_keys)
  have 4: "fst ` set t \<subseteq> keys (f_m (fst (snd (Set getenv readFile f w pth opt))))"
    if g: "(opt = None \<and> f_opt f \<noteq> None) \<or> (\<exists>ot. opt = Some ot \<and> Seen ot)"
      and e: "expand getenv pth = v" and n: "v \<noteq> []" "v \<noteq> ''?''" "v \<noteq> rescanFlags"
      and rd: "readFile (if hd v = CHR ''?'' then tl v else v) = Inr data"
      and ts: "TrimSpace data \<noteq> []"
      and dc: "Decoder f = Some dec" and dr: "dec (TrimSpace data) = Inr t"
  proof -
    define p where "p = (if hd v = CHR ''?'' then tl v else v)"
    have rd': "readFile p = Inr data" using rd by (simp add: p_def)
    have "Set getenv readFile f w pth opt =
      (case apply_flags p (f\<lparr>f_path := p, f_m := Some (mergemap (f_m f) (Some t))\<rparr>)
              (w\<lparr>reads := reads w @ [p]\<rparr>) of
         (err, w') \<Rightarrow> (Returns err, f\<lparr>f_path := p, f_m := Some (mergemap (f_m f) (Some t))\<rparr>, w'))"
      using g e n p_def rd' ts dc dr by (rule Set_decode_path)
    then have "f_m (fst (snd (Set getenv readFile f w pth opt))) = Some (mergemap (f_m f) (Some t))"
      by (simp split: prod.splits)
    then show ?thesis by (simp add: keys_mergemap)
  qed
  have 5: "fst (snd (Rescan getenv readFile f w name s)) = f" by (rule Rescan_keeps_Flags)
  from 1 2 3 4 5 show ?thesis by blast
qed

lemma apply_phase_works_on_duplicate_example:
  "deep (free someHeap) (Suc 1) someHeap 0 \<and>
   f_m heapFlags = Some (tree_of 1 someHeap (cells someHeap 0)) \<and>
   wf_tree (tree_of 1 someHeap (cells someHeap 0)) \<and>
   f_opt heapFlags \<noteq> None \<and> expand noEnv ''B'' = ''B'' \<and> ''B'' \<noteq> rescanFlags \<and>
   twoFiles ''B'' = Inr ''child.b = 2'' \<and> Decoder heapFlags = Some SimpleDecoder \<and>
   SimpleDecoder ''child.b = 2'' = Inr [(''child'', VMap [(''b'', VString ''2'')])] \<and>
   (\<exists>h1 c. h_mergemap 1 someHeap None (Some 0) = Some (h1, c) \<and> free someHeap \<le> c \<and>
      tree_of 1 h1 (cells h1 c) = tree_of 1 someHeap (cells someHeap 0)) \<and>
   (\<exists>err m h' store'.
      h_duplicate_and_apply 1 ''B'' (Sets heapFlags) (Some 0) someHeap (optionSets childWorld) =
        Some (err, m, h', store') \<and>
      free someHeap \<le> m \<and> (\<forall>b<free someHeap. cells h' b = cells someHeap b)) \<and>
   keys (f_m heapFlags) \<subseteq>
     keys (f_m (fst (snd (Set noEnv twoFiles heapFlags childWorld ''B'' None)))) \<and>
   fst ` set [(''child'', VMap [(''b'', VString ''2'')])] \<subseteq>
     keys (f_m (fst (snd (Set noEnv twoFiles heapFlags childWorld ''B'' None)))) \<and>
   fst (snd (Rescan noEnv twoFiles heapFlags childWorld ''child'' 1)) = heapFlags"
proof -
  let ?t = "[(''child'', VMap [(''b'', VString ''2'')])]"
  have d: "deep (free someHeap) (Suc 1) someHeap 0" by code_simp
  have m: "f_m heapFlags = Some (tree_of 1 someHeap (cells someHeap 0))" by code_simp
  have wf: "wf_tree (tree_of 1 someHeap (cells someHeap 0))" by code_simp
  have g: "(None = None \<and> f_opt heapFlags \<noteq> None) \<or> (\<exists>ot. None = Some ot \<and> Seen ot)"
    by (simp add: heapFlags_def)
  have g': "f_opt heapFlags \<noteq> None" by (simp add: heapFlags_def)
  have e: "expand noEnv ''B'' = ''B''" by (simp add: expand_plain)
  have n: "''B'' \<noteq> []" "''B'' \<noteq> ''?''" "''B'' \<noteq> rescanFlags"
    by (simp_all add: rescanFlags_def)
  have rd: "twoFiles (if hd ''B'' = CHR ''?'' then tl ''B'' else ''B'') = Inr ''child.b = 2''"
    by (simp add: twoFiles_def)
  have rd': "twoFiles ''B'' = Inr ''child.b = 2''" by (simp add: twoFiles_def)
  have ts: "TrimSpace ''child.b = 2'' \<noteq> []" by code_simp
  have dc: "Decoder heapFlags = Some SimpleDecoder" by (simp add: heapFlags_def)
  have dr: "SimpleDecoder (TrimSpace ''child.b = 2'') = Inr ?t" by code_simp
  have dr': "SimpleDecoder ''child.b = 2'' = Inr ?t" by code_simp
  note th = apply_phase_works_on_duplicate [where h = someHeap and n = 1 and a = 0
      and f = heapFlags and pth = "''B''" and store = "optionSets childWorld" and getenv = noEnv
      and readFile = twoFiles and w = childWorld and opt = None and v = "''B''"
      and data = "''child.b = 2''" and dec = SimpleDecoder and t = ?t and name = "''child''"
      and s = 1, OF d m]
  from th wf have 1: "\<exists>h1 c. h_mergemap 1 someHeap None (Some 0) = Some (h1, c) \<and>
      free someHeap \<le> c \<and> tree_of 1 h1 (cells h1 c) = tree_of 1 someHeap (cells someHeap 0)"
    by blast
  from th have 2: "\<exists>err m h' store'.
      h_duplicate_and_apply 1 ''B'' (Sets heapFlags) (Some 0) someHeap (optionSets childWorld) =
        Some (err, m, h', store') \<and>
      free someHeap \<le> m \<and> (\<forall>b<free someHeap. cells h' b = cells someHeap b)"
    by blast
  from th have 3: "keys (f_m heapFlags) \<subseteq>
     keys (f_m (fst (snd (Set noEnv twoFiles heapFlags childWorld ''B'' None))))"
    by blast
  from th g e n rd ts dc dr have 4: "fst ` set ?t \<subseteq>
     keys (f_m (fst (snd (Set noEnv twoFiles heapFlags childWorld ''B'' None))))"
    by blast
  from th have 5: "fst (snd (Rescan noEnv twoFiles heapFlags childWorld ''child'' 1)) = heapFlags"
    by blast
  from d m wf g' e n(3) rd' dc dr' 1 2 3 4 5 show ?thesis by blast
qed

text \<open>
  Claim C10: the code does not keep every key that it has decoded.  The comment in \<open>Set\<close>
  (lines 199 to 203) says that the merged list of the options seen is kept, so that it
  can be replayed after a subset is registered.  The overlay \<open>A\<close> sets \<open>child.a\<close> and the
  overlay \<open>B\<close> sets \<open>child.b\<close>.  The key \<open>child.a\<close> is decoded and accumulated by the first
  call of \<open>Set\<close>; after the second call the accumulated map has the nested map of \<open>B\<close>
  under \<open>child\<close>, without the key \<open>a\<close>.  A set \<open>child\<close> with the options \<open>a\<close> and \<open>b\<close> is
  registered later: \<open>Rescan\<close> returns no error, gives \<open>b\<close> its value and leaves \<open>a\<close>
  without the value read from \<open>A\<close>.  The apply phase has deleted nothing from the
  accumulated map, which still has the key \<open>b\<close> after \<open>Rescan\<close>: the merge of the second
  call has replaced the map that had the key \<open>a\<close>.
\<close>

theorem Rescan_forgets_replaced_table:
  "f_m (fst (snd (Set noEnv twoFiles laterFlags someWorld ''A'' None))) =
     Some [(''child'', VMap [(''a'', VString ''1'')])] \<and>
   f_m afterTwoFiles = Some [(''child'', VMap [(''b'', VString ''2'')])] \<and>
   fst (Rescan noEnv twoFiles afterTwoFiles childWorld ''child'' 1) = Returns None \<and>
   map Value (optionSets (snd (snd (Rescan noEnv twoFiles afterTwoFiles childWorld ''child'' 1))) 1) =
     [[], ''2''] \<and>
   f_m (fst (snd (Rescan noEnv twoFiles afterTwoFiles childWorld ''child'' 1))) =
     Some [(''child'', VMap [(''b'', VString ''2'')])]"
  by code_simp

end
